theory Spec2Isabelle
  imports Main "HOL-Library.Word" "HOL-Library.Monad_Syntax"
begin

section \<open>The ordered tree of kwik: binary_tree and avl_tree over an explicit store\<close>

text \<open>
  The source links nodes by raw pointers (\<open>parent\<close>, \<open>left\<close>, \<open>right\<close>) and mutates them in
  place, so the model keeps an explicit store from addresses to nodes. A pointer is an
  \<open>addr option\<close>, \<open>None\<close> being \<open>nullptr\<close>.

  Every operation returns an \<open>option\<close>: \<open>None\<close> means that the call does not return a
  result (it dereferences \<open>nullptr\<close> or an address that was never allocated, or it recurses
  for ever); \<open>Some\<close> carries the state after the call.

  \<open>delete\<close> hands a cell back to the allocator. The store keeps the bytes of a released
  cell and records its address in \<open>freed\<close>; a later read or write through a stale pointer
  (the source has such accesses, for instance \<open>node->parent = root\<close> right after
  \<open>delete node\<close> in \<open>insert\<close>) lands in the released cell. \<open>new\<close> hands out the next
  unused address and never recycles a released one.

  \<open>height\<close> is a \<open>uint64_t\<close> in the source. It is bounded by the number of nodes, which a
  64-bit address space keeps far below \<open>2^63\<close>, so the model uses \<open>nat\<close> and the signed
  difference of two heights is their difference as integers. \<open>tree_size\<close> is a \<open>size_t\<close>
  that the source decrements without a check, so it is a 64-bit word.
\<close>

type_synonym addr = nat
type_synonym ptr = "addr option"

record 'a node =
  data :: 'a
  parent :: ptr
  left :: ptr
  right :: ptr
  height :: nat

record 'a state =
  cells :: "addr \<Rightarrow> 'a node option"
  freed :: "addr set"
  next_addr :: addr
  tree_root :: ptr
  tree_size :: "64 word"

type_synonym 'a comparator = "'a \<Rightarrow> 'a \<Rightarrow> int"
type_synonym 'a hook = "'a state \<Rightarrow> ptr \<Rightarrow> ('a state \<times> ptr) option"

subsection \<open>Reading and writing through pointers\<close>

definition deref :: "'a state \<Rightarrow> ptr \<Rightarrow> 'a node option" where
  "deref s p = (case p of None \<Rightarrow> None | Some a \<Rightarrow> cells s a)"

definition store :: "'a state \<Rightarrow> addr \<Rightarrow> 'a node \<Rightarrow> 'a state" where
  "store s a n = s\<lparr>cells := (cells s)(a := Some n)\<rparr>"

definition set_parent :: "'a state \<Rightarrow> ptr \<Rightarrow> ptr \<Rightarrow> 'a state option" where
  "set_parent s p v =
     (case p of None \<Rightarrow> None
      | Some a \<Rightarrow> (case cells s a of None \<Rightarrow> None
                  | Some n \<Rightarrow> Some (store s a (n\<lparr>parent := v\<rparr>))))"

definition set_left :: "'a state \<Rightarrow> ptr \<Rightarrow> ptr \<Rightarrow> 'a state option" where
  "set_left s p v =
     (case p of None \<Rightarrow> None
      | Some a \<Rightarrow> (case cells s a of None \<Rightarrow> None
                  | Some n \<Rightarrow> Some (store s a (n\<lparr>left := v\<rparr>))))"

definition set_right :: "'a state \<Rightarrow> ptr \<Rightarrow> ptr \<Rightarrow> 'a state option" where
  "set_right s p v =
     (case p of None \<Rightarrow> None
      | Some a \<Rightarrow> (case cells s a of None \<Rightarrow> None
                  | Some n \<Rightarrow> Some (store s a (n\<lparr>right := v\<rparr>))))"

definition set_height :: "'a state \<Rightarrow> ptr \<Rightarrow> nat \<Rightarrow> 'a state option" where
  "set_height s p v =
     (case p of None \<Rightarrow> None
      | Some a \<Rightarrow> (case cells s a of None \<Rightarrow> None
                  | Some n \<Rightarrow> Some (store s a (n\<lparr>height := v\<rparr>))))"

text \<open>\<open>delete node\<close>: the cell is released, its bytes stay where they are.\<close>

definition delete_node :: "'a state \<Rightarrow> ptr \<Rightarrow> 'a state" where
  "delete_node s p = (case p of None \<Rightarrow> s | Some a \<Rightarrow> s\<lparr>freed := insert a (freed s)\<rparr>)"

text \<open>\<open>new_node(data)\<close>: the constructor sets the three links to \<open>nullptr\<close> and the height to 1.\<close>

definition new_node :: "'a state \<Rightarrow> 'a \<Rightarrow> 'a state \<times> ptr" where
  "new_node s d =
     (s\<lparr>cells := (cells s)(next_addr s :=
           Some \<lparr>data = d, parent = None, left = None, right = None, height = 1\<rparr>),
        next_addr := next_addr s + 1\<rparr>,
      Some (next_addr s))"

subsection \<open>binary_tree\<close>

text \<open>The comparator a tree gets when the constructor is given none.\<close>

definition compare_default :: "('a::linorder) comparator" where
  "compare_default a b = (if a < b then - 1 else if a > b then 1 else 0)"

text \<open>A freshly constructed tree: no root, size 0.\<close>

definition empty_tree :: "'a state" where
  "empty_tree = \<lparr>cells = (\<lambda>_. None), freed = {}, next_addr = 1, tree_root = None, tree_size = 0\<rparr>"

text \<open>The protected \<open>height(node)\<close>: the cached height, 0 for \<open>nullptr\<close>.\<close>

definition height_of :: "'a state \<Rightarrow> ptr \<Rightarrow> nat option" where
  "height_of s p = (case p of None \<Rightarrow> Some 0 | Some a \<Rightarrow> map_option height (cells s a))"

text \<open>The public \<open>root()\<close>, \<open>size()\<close> and \<open>height()\<close>.\<close>

definition root :: "'a state \<Rightarrow> ptr" where
  "root s = tree_root s"

definition size_t :: "'a state \<Rightarrow> 64 word" where
  "size_t s = tree_size s"

definition height_t :: "'a state \<Rightarrow> nat option" where
  "height_t s = height_of s (tree_root s)"

text \<open>The base class's \<open>balance\<close> hook returns the node as it is.\<close>

definition balance_base :: "'a hook" where
  "balance_base s p = Some (s, p)"

text \<open>The recomputation \<open>node->height = max(height(left), height(right)) + 1\<close>.\<close>

definition refresh_height :: "'a state \<Rightarrow> ptr \<Rightarrow> 'a state option" where
  "refresh_height s p = do {
     n \<leftarrow> deref s p;
     hl \<leftarrow> height_of s (left n);
     hr \<leftarrow> height_of s (right n);
     set_height s p (max hl hr + 1)
   }"

partial_function (option) find_at :: "'a comparator \<Rightarrow> 'a state \<Rightarrow> ptr \<Rightarrow> 'a \<Rightarrow> ptr option" where
  "find_at cmp s rt d =
     (case rt of None \<Rightarrow> Some None
      | Some a \<Rightarrow>
         (case cells s a of None \<Rightarrow> None
          | Some n \<Rightarrow>
             (if cmp (data n) d = 0 then Some rt
              else if cmp (data n) d > 0 then find_at cmp s (left n) d
              else find_at cmp s (right n) d)))"

partial_function (option) find_min :: "'a state \<Rightarrow> ptr \<Rightarrow> ptr option" where
  "find_min s p =
     (case p of None \<Rightarrow> Some None
      | Some a \<Rightarrow>
         (case cells s a of None \<Rightarrow> None
          | Some n \<Rightarrow> (if left n = None then Some p else find_min s (left n))))"

partial_function (option) find_max :: "'a state \<Rightarrow> ptr \<Rightarrow> ptr option" where
  "find_max s p =
     (case p of None \<Rightarrow> Some None
      | Some a \<Rightarrow>
         (case cells s a of None \<Rightarrow> None
          | Some n \<Rightarrow> (if right n = None then Some p else find_max s (right n))))"

declare find_at.simps [code]
declare find_min.simps [code]
declare find_max.simps [code]

text \<open>
  \<open>parent_relink(root, node)\<close>: the two tests read \<open>root->parent\<close> one after the other, the
  second after the first one's write.
\<close>

definition parent_relink :: "'a state \<Rightarrow> ptr \<Rightarrow> ptr \<Rightarrow> 'a state option" where
  "parent_relink s rt node =
     (case rt of None \<Rightarrow> Some s
      | Some r \<Rightarrow> do {
          rn \<leftarrow> cells s r;
          if parent rn = None then Some s
          else do {
            pn \<leftarrow> deref s (parent rn);
            s1 \<leftarrow> (if left pn = rt then set_left s (parent rn) node else Some s);
            rn1 \<leftarrow> cells s1 r;
            pn1 \<leftarrow> deref s1 (parent rn1);
            (if right pn1 = rt then set_right s1 (parent rn1) node else Some s1)
          }
        })"

definition parent_unlink :: "'a state \<Rightarrow> ptr \<Rightarrow> 'a state option" where
  "parent_unlink s node = parent_relink s node None"

partial_function (option) parent_refresh_height :: "'a state \<Rightarrow> ptr \<Rightarrow> 'a state option" where
  "parent_refresh_height s node =
     (case node of None \<Rightarrow> Some s
      | Some a \<Rightarrow> do {
          s1 \<leftarrow> refresh_height s node;
          n \<leftarrow> cells s1 a;
          (if parent n \<noteq> None then parent_refresh_height s1 (parent n) else Some s1)
        })"

declare parent_refresh_height.simps [code]

text \<open>
  The protected, recursive \<open>insert(root, node)\<close>. \<open>bal\<close> is the virtual \<open>balance\<close> of the
  class the tree was built as. On an equal value the source decrements the size, deletes the
  new node and goes on: it still writes \<open>node->parent\<close>, refreshes the height and calls the
  hook.
\<close>

partial_function (option) insert_at ::
  "'a comparator \<Rightarrow> 'a hook \<Rightarrow> 'a state \<Rightarrow> ptr \<Rightarrow> ptr \<Rightarrow> ('a state \<times> ptr) option" where
  "insert_at cmp bal s rt node =
     (case rt of None \<Rightarrow> Some (s, node)
      | Some r \<Rightarrow> do {
          rn \<leftarrow> cells s r;
          nn \<leftarrow> deref s node;
          let c = cmp (data rn) (data nn);
          let s1 = (if c = 0 then delete_node (s\<lparr>tree_size := tree_size s - 1\<rparr>) node else s);
          s2 \<leftarrow> set_parent s1 node rt;
          s3 \<leftarrow> (if c > 0 then do {
                   rn2 \<leftarrow> cells s2 r;
                   sa \<leftarrow> (if left rn2 \<noteq> None then set_parent s2 node (left rn2) else Some s2);
                   rna \<leftarrow> cells sa r;
                   (sb, res) \<leftarrow> insert_at cmp bal sa (left rna) node;
                   set_left sb rt res
                 } else Some s2);
          s4 \<leftarrow> (if c < 0 then do {
                   rn3 \<leftarrow> cells s3 r;
                   sa \<leftarrow> (if right rn3 \<noteq> None then set_parent s3 node (right rn3) else Some s3);
                   rna \<leftarrow> cells sa r;
                   (sb, res) \<leftarrow> insert_at cmp bal sa (right rna) node;
                   set_right sb rt res
                 } else Some s3);
          s5 \<leftarrow> refresh_height s4 rt;
          bal s5 rt
        })"

declare insert_at.simps [code]

text \<open>The public \<open>insert(node)\<close> and \<open>insert(data)\<close>.\<close>

definition insert_node :: "'a comparator \<Rightarrow> 'a hook \<Rightarrow> 'a state \<Rightarrow> ptr \<Rightarrow> 'a state option" where
  "insert_node cmp bal s node = do {
     let s1 = s\<lparr>tree_size := tree_size s + 1\<rparr>;
     (s2, r) \<leftarrow> insert_at cmp bal s1 (tree_root s1) node;
     Some (s2\<lparr>tree_root := r\<rparr>)
   }"

definition insert_data :: "'a comparator \<Rightarrow> 'a hook \<Rightarrow> 'a state \<Rightarrow> 'a \<Rightarrow> 'a state option" where
  "insert_data cmp bal s d = (case new_node s d of (s1, node) \<Rightarrow> insert_node cmp bal s1 node)"

text \<open>The public \<open>remove(node)\<close> and \<open>remove(data)\<close>.\<close>

definition remove_node :: "'a state \<Rightarrow> ptr \<Rightarrow> 'a state option" where
  "remove_node s node =
     (case node of None \<Rightarrow> Some s
      | Some a \<Rightarrow> do {
          let s0 = s\<lparr>tree_size := tree_size s - 1\<rparr>;
          n \<leftarrow> cells s0 a;
          promote \<leftarrow>
            (if left n \<noteq> None \<and> right n \<noteq> None then do {
               ln \<leftarrow> deref s0 (left n);
               rn \<leftarrow> deref s0 (right n);
               if height ln > height rn then find_max s0 (left n) else find_min s0 (right n)
             }
             else if left n \<noteq> None \<or> right n \<noteq> None then
               Some (if left n = None then right n else left n)
             else Some None);
          s1 \<leftarrow> (if promote \<noteq> None then set_parent s0 promote (parent n) else Some s0);
          n1 \<leftarrow> cells s1 a;
          s2 \<leftarrow> (if left n1 \<noteq> promote then set_left s1 promote (left n1) else Some s1);
          n2 \<leftarrow> cells s2 a;
          s3 \<leftarrow> (if right n2 \<noteq> promote then set_right s2 promote (right n2) else Some s2);
          s4 \<leftarrow> parent_unlink s3 promote;
          s5 \<leftarrow> parent_relink s4 node promote;
          n5 \<leftarrow> cells s5 a;
          s6 \<leftarrow> parent_refresh_height s5 (if promote \<noteq> None then promote else parent n5);
          let s7 = (if tree_root s6 = node then s6\<lparr>tree_root := promote\<rparr> else s6);
          Some (delete_node s7 node)
        })"

definition remove_data :: "'a comparator \<Rightarrow> 'a state \<Rightarrow> 'a \<Rightarrow> 'a state option" where
  "remove_data cmp s d = do {
     node \<leftarrow> find_at cmp s (tree_root s) d;
     remove_node s node
   }"

text \<open>
  The walk of the protected \<open>print(root)\<close>, left subtree, node, right subtree, as the list
  of the values it writes (the parent and height printed beside each value are left out).
\<close>

partial_function (option) in_order :: "'a state \<Rightarrow> ptr \<Rightarrow> 'a list option" where
  "in_order s rt =
     (case rt of None \<Rightarrow> Some []
      | Some a \<Rightarrow> do {
          n \<leftarrow> cells s a;
          l \<leftarrow> (if left n \<noteq> None then in_order s (left n) else Some []);
          r \<leftarrow> (if right n \<noteq> None then in_order s (right n) else Some []);
          Some (l @ [data n] @ r)
        })"

declare in_order.simps [code]

subsection \<open>avl_tree\<close>

definition difference :: "'a state \<Rightarrow> ptr \<Rightarrow> int option" where
  "difference s p =
     (case p of None \<Rightarrow> Some 0
      | Some a \<Rightarrow> do {
          n \<leftarrow> cells s a;
          hl \<leftarrow> height_of s (left n);
          hr \<leftarrow> height_of s (right n);
          Some (int hl - int hr)
        })"

definition rr_rotate :: "'a hook" where
  "rr_rotate s rt = do {
     rn \<leftarrow> deref s rt;
     let pivot = right rn;
     pn \<leftarrow> deref s pivot;
     s1 \<leftarrow> set_right s rt (left pn);
     s2 \<leftarrow> set_left s1 pivot rt;
     s3 \<leftarrow> refresh_height s2 rt;
     s4 \<leftarrow> refresh_height s3 pivot;
     Some (s4, pivot)
   }"

definition ll_rotate :: "'a hook" where
  "ll_rotate s rt = do {
     rn \<leftarrow> deref s rt;
     let pivot = left rn;
     pn \<leftarrow> deref s pivot;
     s1 \<leftarrow> set_left s rt (right pn);
     s2 \<leftarrow> set_right s1 pivot rt;
     s3 \<leftarrow> refresh_height s2 rt;
     s4 \<leftarrow> refresh_height s3 pivot;
     Some (s4, pivot)
   }"

definition lr_rotate :: "'a hook" where
  "lr_rotate s rt = do {
     rn \<leftarrow> deref s rt;
     (s1, l) \<leftarrow> rr_rotate s (left rn);
     s2 \<leftarrow> set_left s1 rt l;
     ll_rotate s2 rt
   }"

definition rl_rotate :: "'a hook" where
  "rl_rotate s rt = do {
     rn \<leftarrow> deref s rt;
     (s1, r) \<leftarrow> ll_rotate s (right rn);
     s2 \<leftarrow> set_right s1 rt r;
     rr_rotate s2 rt
   }"

definition balance :: "'a hook" where
  "balance s rt = do {
     factor \<leftarrow> difference s rt;
     if factor > 1 then do {
       rn \<leftarrow> deref s rt;
       dl \<leftarrow> difference s (left rn);
       if dl > 0 then ll_rotate s rt else lr_rotate s rt
     }
     else if factor < - 1 then do {
       rn \<leftarrow> deref s rt;
       dr \<leftarrow> difference s (right rn);
       if dr > 0 then rl_rotate s rt else rr_rotate s rt
     }
     else Some (s, rt)
   }"

subsection \<open>Sequences of public calls\<close>

datatype 'a op = Insert 'a | Remove 'a

fun apply_op :: "'a comparator \<Rightarrow> 'a hook \<Rightarrow> 'a state \<Rightarrow> 'a op \<Rightarrow> 'a state option" where
  "apply_op cmp bal s (Insert d) = insert_data cmp bal s d"
| "apply_op cmp bal s (Remove d) = remove_data cmp s d"

fun run :: "'a comparator \<Rightarrow> 'a hook \<Rightarrow> 'a state \<Rightarrow> 'a op list \<Rightarrow> 'a state option" where
  "run cmp bal s [] = Some s"
| "run cmp bal s (x # xs) =
     (case apply_op cmp bal s x of None \<Rightarrow> None | Some s1 \<Rightarrow> run cmp bal s1 xs)"

text \<open>The state a sequence of calls leaves behind, starting from the empty tree.\<close>

definition after :: "'a comparator \<Rightarrow> 'a hook \<Rightarrow> 'a op list \<Rightarrow> 'a state" where
  "after cmp bal ops = (case run cmp bal empty_tree ops of None \<Rightarrow> empty_tree | Some s \<Rightarrow> s)"

text \<open>
  An AVL tree whose root is two levels heavier on the right and whose right child is level:
  2 over (nothing, 4 over (3, 5)), built by inserting 2, 1, 4, 3, 5 and removing the leaf 1.
\<close>

definition level_right_child :: "int state" where
  "level_right_child =
     after compare_default balance [Insert 2, Insert 1, Insert 4, Insert 3, Insert 5, Remove 1]"

definition one_element :: "int state" where
  "one_element = after compare_default balance [Insert 5]"

subsection \<open>The tree a store holds\<close>

text \<open>
  The shape of a tree of nodes: which address sits where. \<open>tree_at h p t\<close> says that the
  store \<open>h\<close> holds the tree \<open>t\<close> at the pointer \<open>p\<close>: the left and right links follow \<open>t\<close>
  and no address occurs twice. \<open>cached h t\<close> says that every node of \<open>t\<close> caches its true
  height, and \<open>avl t\<close> that every node's subtrees differ in height by at most one.
\<close>

datatype shape = Tip | Fork shape addr shape

primrec addrs :: "shape \<Rightarrow> addr set" where
  "addrs Tip = {}"
| "addrs (Fork l a r) = insert a (addrs l \<union> addrs r)"

primrec ht :: "shape \<Rightarrow> nat" where
  "ht Tip = 0"
| "ht (Fork l a r) = max (ht l) (ht r) + 1"

primrec top :: "shape \<Rightarrow> ptr" where
  "top Tip = None"
| "top (Fork l a r) = Some a"

primrec tree_at :: "(addr \<Rightarrow> 'a node option) \<Rightarrow> ptr \<Rightarrow> shape \<Rightarrow> bool" where
  "tree_at h p Tip = (p = None)"
| "tree_at h p (Fork l a r) =
     (p = Some a \<and> a \<notin> addrs l \<and> a \<notin> addrs r \<and> addrs l \<inter> addrs r = {} \<and>
      (case h a of None \<Rightarrow> False
       | Some n \<Rightarrow> tree_at h (left n) l \<and> tree_at h (right n) r))"

primrec cached :: "(addr \<Rightarrow> 'a node option) \<Rightarrow> shape \<Rightarrow> bool" where
  "cached h Tip = True"
| "cached h (Fork l a r) =
     (cached h l \<and> cached h r \<and> map_option height (h a) = Some (max (ht l) (ht r) + 1))"

primrec avl :: "shape \<Rightarrow> bool" where
  "avl Tip = True"
| "avl (Fork l a r) = (avl l \<and> avl r \<and> ht l \<le> ht r + 1 \<and> ht r \<le> ht l + 1)"

text \<open>The balance factor of the source, read off the shape.\<close>

primrec bf :: "shape \<Rightarrow> int" where
  "bf Tip = 0"
| "bf (Fork l a r) = int (ht l) - int (ht r)"

text \<open>
  The rotations, the hook and the recursive insert as functions on shapes. \<open>c r\<close> stands for
  the comparator's answer \<open>compare(r->data, node->data)\<close> at the node of address \<open>r\<close>.
\<close>

fun rr_sh :: "shape \<Rightarrow> shape" where
  "rr_sh (Fork a r (Fork b p c)) = Fork (Fork a r b) p c"
| "rr_sh t = t"

fun ll_sh :: "shape \<Rightarrow> shape" where
  "ll_sh (Fork (Fork a p b) r c) = Fork a p (Fork b r c)"
| "ll_sh t = t"

fun lr_sh :: "shape \<Rightarrow> shape" where
  "lr_sh (Fork l r c) = ll_sh (Fork (rr_sh l) r c)"
| "lr_sh Tip = Tip"

fun rl_sh :: "shape \<Rightarrow> shape" where
  "rl_sh (Fork a r rt) = rr_sh (Fork a r (ll_sh rt))"
| "rl_sh Tip = Tip"

fun bal_sh :: "shape \<Rightarrow> shape" where
  "bal_sh Tip = Tip"
| "bal_sh (Fork l a r) =
     (if bf (Fork l a r) > 1 then (if bf l > 0 then ll_sh (Fork l a r) else lr_sh (Fork l a r))
      else if bf (Fork l a r) < - 1 then
        (if bf r > 0 then rl_sh (Fork l a r) else rr_sh (Fork l a r))
      else Fork l a r)"

fun ins_sh :: "(addr \<Rightarrow> int) \<Rightarrow> addr \<Rightarrow> shape \<Rightarrow> shape" where
  "ins_sh c a Tip = Fork Tip a Tip"
| "ins_sh c a (Fork l r rt) =
     bal_sh (if c r > 0 then Fork (ins_sh c a l) r rt
             else if c r < 0 then Fork l r (ins_sh c a rt)
             else Fork l r rt)"

definition cmp_at :: "'a comparator \<Rightarrow> (addr \<Rightarrow> 'a node option) \<Rightarrow> 'a \<Rightarrow> addr \<Rightarrow> int" where
  "cmp_at cmp h v r = (case h r of None \<Rightarrow> 0 | Some n \<Rightarrow> cmp (data n) v)"

definition three_nodes :: "int state" where
  "three_nodes = after compare_default balance [Insert 2, Insert 1, Insert 3]"

definition three_nodes_shape :: shape where
  "three_nodes_shape = Fork (Fork Tip 2 Tip) 1 (Fork Tip 3 Tip)"

text \<open>
  An AVL tree that a removal has left out of balance: 2 over (nothing, 3 over (nothing, 4)),
  built by inserting 2, 1, 3, 4 and removing the leaf 1. No rotation has run, so every link
  and every cached height is right.
\<close>

definition right_spine :: "int state" where
  "right_spine =
     after compare_default balance [Insert 2, Insert 1, Insert 3, Insert 4, Remove 1]"

definition right_spine_shape :: shape where
  "right_spine_shape = Fork Tip 1 (Fork Tip 3 (Fork Tip 4 Tip))"

text \<open>
  The ordering invariant: below every node, the values of the left subtree compare less
  than the node's value and those of the right subtree compare greater.
\<close>

primrec ordered :: "'a comparator \<Rightarrow> (addr \<Rightarrow> 'a node option) \<Rightarrow> shape \<Rightarrow> bool" where
  "ordered cmp h Tip = True"
| "ordered cmp h (Fork l a r) =
     (ordered cmp h l \<and> ordered cmp h r \<and>
      (case h a of None \<Rightarrow> False
       | Some n \<Rightarrow> (\<forall>b\<in>addrs l. cmp_at cmp h (data n) b < 0) \<and>
                   (\<forall>b\<in>addrs r. cmp_at cmp h (data n) b > 0)))"

text \<open>
  What the proofs need of a comparator that is a strict total order: "less" is the mirror
  image of "greater", and "less" is transitive.
\<close>

definition strict_total_order :: "'a comparator \<Rightarrow> bool" where
  "strict_total_order cmp =
     ((\<forall>x y. (cmp x y < 0) = (cmp y x > 0)) \<and>
      (\<forall>x y z. cmp x y < 0 \<and> cmp y z < 0 \<longrightarrow> cmp x z < 0))"

text \<open>
  The state \<open>insert\<close> leaves when it finds an equal value: the size is decremented, the new
  node \<open>a\<close> is released, and the cell of \<open>a\<close> holds what was written to it last.
\<close>

definition released :: "'a state \<Rightarrow> addr \<Rightarrow> 'a node \<Rightarrow> 'a state" where
  "released s a n = s\<lparr>tree_size := tree_size s - 1, freed := insert a (freed s),
     cells := (cells s)(a := Some n)\<rparr>"

text \<open>
  What a call of the hook leaves behind: the tree \<open>t'\<close> at the returned pointer, with
  its heights cached, no cell touched outside \<open>X\<close>, no value changed. \<open>ins_post\<close> says the
  same of the recursive insert, which may also write the cell of the new node \<open>a\<close>.
\<close>

definition hook_post ::
  "'a state \<Rightarrow> ('a state \<times> ptr) option \<Rightarrow> shape \<Rightarrow> addr set \<Rightarrow> bool" where
  "hook_post s res t' X =
     (\<exists>h'. res = Some (s\<lparr>cells := h'\<rparr>, top t') \<and> tree_at h' (top t') t' \<and> cached h' t' \<and>
        (\<forall>b. b \<notin> X \<longrightarrow> h' b = cells s b) \<and>
        (\<forall>b. map_option data (h' b) = map_option data (cells s b)))"

definition ins_post ::
  "'a state \<Rightarrow> ('a state \<times> ptr) option \<Rightarrow> shape \<Rightarrow> addr \<Rightarrow> shape \<Rightarrow> bool" where
  "ins_post s res t a t' =
     (\<exists>s'. res = Some (s', top t') \<and> tree_at (cells s') (top t') t' \<and> cached (cells s') t' \<and>
        (\<forall>b. b \<notin> addrs t \<and> b \<noteq> a \<longrightarrow> cells s' b = cells s b) \<and>
        (\<forall>b. map_option data (cells s' b) = map_option data (cells s b)) \<and>
        next_addr s' = next_addr s)"

text \<open>
  The invariant of an insertion-only workload on an AVL tree: the store holds a tree at the
  root, with its heights cached and every node balanced, below the next address \<open>new\<close>
  hands out.
\<close>

definition avl_inv :: "'a state \<Rightarrow> shape \<Rightarrow> bool" where
  "avl_inv s t = (tree_at (cells s) (tree_root s) t \<and> cached (cells s) t \<and> avl t \<and>
     (\<forall>b\<in>addrs t. b < next_addr s))"

text \<open>
  The parent links of a tree: the root's parent is \<open>par\<close> and every other node's parent
  is the node that holds it as a child.
\<close>

primrec parents_ok :: "(addr \<Rightarrow> 'a node option) \<Rightarrow> ptr \<Rightarrow> shape \<Rightarrow> bool" where
  "parents_ok h par Tip = True"
| "parents_ok h par (Fork l a r) =
     (map_option parent (h a) = Some par \<and> parents_ok h (Some a) l \<and> parents_ok h (Some a) r)"

text \<open>The states the removal scenarios end in.\<close>

definition two_children_removed :: "int state" where
  "two_children_removed =
     after compare_default balance_base [Insert 2, Insert 1, Insert 4, Insert 3, Remove 2]"

definition seven_less_four :: "int state" where
  "seven_less_four =
     after compare_default balance
       [Insert 1, Insert 2, Insert 3, Insert 4, Insert 5, Insert 6, Insert 7, Remove 4]"

definition stale_height :: "int state" where
  "stale_height =
     after compare_default balance [Insert 10, Insert 20, Insert 30, Insert 5, Remove 5]"

definition rotated_once :: "int state" where
  "rotated_once = after compare_default balance [Insert 10, Insert 20, Insert 30]"

definition one_child_removed :: "int state" where
  "one_child_removed =
     after compare_default balance_base [Insert 1, Insert 3, Insert 2, Remove 1]"

section \<open>Trees in the store: framing and the primitive writes\<close>

lemma tree_at_cong: "\<forall>b\<in>addrs t. h' b = h b \<Longrightarrow> tree_at h' p t = tree_at h p t"
  by (induction t arbitrary: p) (auto split: option.splits)

lemma cached_cong: "\<forall>b\<in>addrs t. h' b = h b \<Longrightarrow> cached h' t = cached h t"
  by (induction t) auto

lemma tree_at_upd: "a \<notin> addrs t \<Longrightarrow> tree_at (h(a := x)) p t = tree_at h p t"
  by (rule tree_at_cong) auto

lemma cached_upd: "a \<notin> addrs t \<Longrightarrow> cached (h(a := x)) t = cached h t"
  by (rule cached_cong) auto

lemma tree_at_top: "tree_at h p t \<Longrightarrow> p = top t"
  by (cases t) auto

lemma tree_at_cell: "tree_at h p t \<Longrightarrow> e \<in> addrs t \<Longrightarrow> \<exists>n. h e = Some n"
  by (induction t arbitrary: p) (auto split: option.splits)

lemma height_of_cached:
  "tree_at (cells s) p t \<Longrightarrow> cached (cells s) t \<Longrightarrow> height_of s p = Some (ht t)"
  by (cases t) (auto simp: height_of_def)

lemma difference_cached:
  "tree_at (cells s) p t \<Longrightarrow> cached (cells s) t \<Longrightarrow> difference s p = Some (bf t)"
  by (cases t) (auto simp: difference_def height_of_cached split: option.splits)

lemma set_parent_Some:
  "cells s a = Some n \<Longrightarrow>
   set_parent s (Some a) v = Some (s\<lparr>cells := (cells s)(a := Some (n\<lparr>parent := v\<rparr>))\<rparr>)"
  by (simp add: set_parent_def store_def)

lemma set_left_Some:
  "cells s a = Some n \<Longrightarrow>
   set_left s (Some a) v = Some (s\<lparr>cells := (cells s)(a := Some (n\<lparr>left := v\<rparr>))\<rparr>)"
  by (simp add: set_left_def store_def)

lemma set_right_Some:
  "cells s a = Some n \<Longrightarrow>
   set_right s (Some a) v = Some (s\<lparr>cells := (cells s)(a := Some (n\<lparr>right := v\<rparr>))\<rparr>)"
  by (simp add: set_right_def store_def)

lemma set_left_same: "cells s r = Some rn \<Longrightarrow> set_left s (Some r) (left rn) = Some s"
  by (simp add: set_left_def store_def fun_upd_idem)

lemma set_right_same: "cells s r = Some rn \<Longrightarrow> set_right s (Some r) (right rn) = Some s"
  by (simp add: set_right_def store_def fun_upd_idem)

lemma refresh_height_Some:
  assumes "cells s a = Some n" "tree_at (cells s) (left n) l" "cached (cells s) l"
    "tree_at (cells s) (right n) r" "cached (cells s) r"
  shows "refresh_height s (Some a) =
     Some (s\<lparr>cells := (cells s)(a := Some (n\<lparr>height := max (ht l) (ht r) + 1\<rparr>))\<rparr>)"
  using assms by (simp add: refresh_height_def deref_def height_of_cached set_height_def store_def)

lemma refresh_height_same:
  assumes "cells s r = Some rn" "tree_at (cells s) (left rn) l" "cached (cells s) l"
    "tree_at (cells s) (right rn) rr" "cached (cells s) rr" "height rn = max (ht l) (ht rr) + 1"
  shows "refresh_height s (Some r) = Some s"
  using assms
  by (simp add: refresh_height_def deref_def height_of_cached set_height_def store_def fun_upd_idem)

lemma find_at_None [simp]: "find_at cmp s None d = Some None"
  by (subst find_at.simps) simp

lemma parent_refresh_height_None [simp]: "parent_refresh_height s None = Some s"
  by (subst parent_refresh_height.simps) simp

lemma find_at_cong:
  "tree_at (cells s) p t \<Longrightarrow> \<forall>b\<in>addrs t. cells s' b = cells s b \<Longrightarrow>
   find_at cmp s' p v = find_at cmp s p v"
proof (induction t arbitrary: p)
  case Tip
  then show ?case by simp
next
  case (Fork l a r)
  from Fork.prems obtain n where n: "p = Some a" "cells s a = Some n" "cells s' a = Some n"
    "tree_at (cells s) (left n) l" "tree_at (cells s) (right n) r"
    by (auto split: option.splits)
  have l: "find_at cmp s' (left n) v = find_at cmp s (left n) v"
    using Fork.IH(1) [OF n(4)] Fork.prems(2) by simp
  have r: "find_at cmp s' (right n) v = find_at cmp s (right n) v"
    using Fork.IH(2) [OF n(5)] Fork.prems(2) by simp
  show ?case
    using n l r by (subst (1 2) find_at.simps) simp
qed

section \<open>A value that is not in the tree\<close>

lemma find_at_absent:
  "tree_at (cells s) p t \<Longrightarrow> \<forall>a\<in>addrs t. cmp_at cmp (cells s) v a \<noteq> 0 \<Longrightarrow>
   find_at cmp s p v = Some None"
proof (induction t arbitrary: p)
  case Tip
  then show ?case by simp
next
  case (Fork l a r)
  from Fork.prems obtain n where n: "p = Some a" "cells s a = Some n"
    "tree_at (cells s) (left n) l" "tree_at (cells s) (right n) r"
    by (auto split: option.splits)
  from Fork.prems(2) n have ne: "cmp (data n) v \<noteq> 0"
    by (simp add: cmp_at_def)
  have l: "find_at cmp s (left n) v = Some None"
    using Fork.IH(1) [OF n(3)] Fork.prems(2) by simp
  have r: "find_at cmp s (right n) v = Some None"
    using Fork.IH(2) [OF n(4)] Fork.prems(2) by simp
  show ?case
    using n ne l r by (subst find_at.simps) simp
qed

lemma three_nodes_facts:
  "tree_at (cells three_nodes) (tree_root three_nodes) (Fork (Fork Tip 2 Tip) 1 (Fork Tip 3 Tip))"
  "\<forall>a\<in>addrs (Fork (Fork Tip 2 Tip) 1 (Fork Tip 3 Tip)).
     cmp_at compare_default (cells three_nodes) 7 a \<noteq> 0"
  by code_simp+

text \<open>
  C9. For every tree and every value \<open>v\<close> that no node of the tree compares equal to,
  \<open>find\<close> returns none and \<open>remove(v)\<close> returns with the state as it was: root, links,
  heights and size are unchanged.
\<close>

theorem remove_absent_is_noop:
  assumes "tree_at (cells s) (tree_root s) t"
    and "\<forall>a\<in>addrs t. cmp_at cmp (cells s) v a \<noteq> 0"
  shows "find_at cmp s (tree_root s) v = Some None \<and> remove_data cmp s v = Some s"
  using find_at_absent [OF assms] by (simp add: remove_data_def remove_node_def)

theorem remove_absent_is_noop_witness:
  "find_at compare_default three_nodes (tree_root three_nodes) 7 = Some None \<and>
   remove_data compare_default three_nodes 7 = Some three_nodes"
  using remove_absent_is_noop [OF three_nodes_facts] .

section \<open>Removing the only node\<close>

lemma one_element_facts:
  "tree_root one_element = Some 1"
  "cells one_element 1 = Some \<lparr>data = 5, parent = None, left = None, right = None, height = 1\<rparr>"
  "tree_size one_element = 1"
  by code_simp+

text \<open>
  C10. A tree of one element: the root has no children, no parent, and the size is 1.
  Removing the root by its handle, or by a value that compares equal to its value, returns,
  and leaves \<open>root()\<close> absent, \<open>size()\<close> 0 and \<open>height()\<close> 0.
\<close>

theorem remove_sole_node:
  assumes "tree_root s = Some a" "cells s a = Some n" "left n = None" "right n = None"
    "parent n = None" "tree_size s = 1" "cmp (data n) v = 0"
  shows "\<exists>s'. remove_node s (Some a) = Some s' \<and> remove_data cmp s v = Some s' \<and>
     root s' = None \<and> size_t s' = 0 \<and> height_t s' = Some 0"
proof -
  have f: "find_at cmp s (tree_root s) v = Some (Some a)"
    using assms by (subst find_at.simps) simp
  have r: "remove_node s (Some a) =
     Some (delete_node (s\<lparr>tree_size := 0, tree_root := None\<rparr>) (Some a))"
    using assms by (simp add: remove_node_def parent_unlink_def parent_relink_def)
  show ?thesis
    by (simp add: remove_data_def f r root_def size_t_def height_t_def height_of_def delete_node_def)
qed

theorem remove_sole_node_witness:
  "\<exists>s'. remove_node one_element (Some 1) = Some s' \<and>
     remove_data compare_default one_element 5 = Some s' \<and>
     root s' = None \<and> size_t s' = 0 \<and> height_t s' = Some 0"
  using remove_sole_node [OF one_element_facts(1,2) _ _ _ one_element_facts(3), of compare_default 5]
  by (simp add: compare_default_def)

section \<open>The rebalance hook on a right-heavy node\<close>

lemma balance_dispatch_right:
  assumes "difference s rt = Some f" "f < - 1" "deref s rt = Some rn"
    "difference s (right rn) = Some dr"
  shows "balance s rt = (if 0 < dr then rl_rotate s rt else rr_rotate s rt)"
  using assms by (simp add: balance_def)

lemma level_right_child_facts:
  "difference level_right_child (Some 1) = Some (- 2)"
  "deref level_right_child (Some 1) =
     Some \<lparr>data = 2, parent = None, left = None, right = Some 3, height = 3\<rparr>"
  "difference level_right_child (Some 3) = Some 0"
  "map_option snd (rr_rotate level_right_child (Some 1)) = Some (Some 3)"
  "map_option snd (rl_rotate level_right_child (Some 1)) = Some (Some 4)"
  by code_simp+

text \<open>
  C8, as the source has it. On a node whose balance factor is below -1 the hook applies the
  double RL rotation exactly when the right child is left-heavy (its balance factor is
  positive); otherwise, also when the right child is level, it applies the single RR
  rotation. The test in the source is \<open>difference(root->right) > 0 ? rl_rotate : rr_rotate\<close>.
\<close>

theorem balance_right_heavy_dispatch:
  assumes "difference s rt = Some f" "f < - 1" "deref s rt = Some rn"
    "difference s (right rn) = Some dr"
  shows "balance s rt = (if 0 < dr then rl_rotate s rt else rr_rotate s rt)"
  using assms by (rule balance_dispatch_right)

theorem balance_right_heavy_dispatch_witness:
  "difference level_right_child (Some 1) = Some (- 2) \<and>
   difference level_right_child (Some 3) = Some 0 \<and>
   balance level_right_child (Some 1) = rr_rotate level_right_child (Some 1)"
  using balance_right_heavy_dispatch
      [OF level_right_child_facts(1) _ level_right_child_facts(2), of 0]
    level_right_child_facts by simp

text \<open>
  C8, as the claim states it: RR exactly when the right child's balance factor is negative,
  RL otherwise. At the root of \<open>level_right_child\<close> the balance factor is -2 and the right
  child's is 0, which is not negative; the hook applies RR all the same, and RL would have
  given another tree (its root would be the node of 3, address 4, not the node of 4).
\<close>

theorem balance_level_right_child_counterexample:
  "difference level_right_child (Some 1) = Some (- 2) \<and>
   difference level_right_child (Some 3) = Some 0 \<and>
   balance level_right_child (Some 1) = rr_rotate level_right_child (Some 1) \<and>
   balance level_right_child (Some 1) \<noteq> rl_rotate level_right_child (Some 1)"
proof -
  have b: "balance level_right_child (Some 1) = rr_rotate level_right_child (Some 1)"
    using balance_dispatch_right [OF level_right_child_facts(1) _ level_right_child_facts(2), of 0]
      level_right_child_facts by simp
  have "rr_rotate level_right_child (Some 1) \<noteq> rl_rotate level_right_child (Some 1)"
  proof
    assume "rr_rotate level_right_child (Some 1) = rl_rotate level_right_child (Some 1)"
    then have "map_option snd (rr_rotate level_right_child (Some 1)) =
      map_option snd (rl_rotate level_right_child (Some 1))" by simp
    then show False unfolding level_right_child_facts by simp
  qed
  with b show ?thesis using level_right_child_facts by simp
qed

section \<open>Inserting a value that is already there\<close>

lemma insert_at_Tip: "insert_at cmp bal s None node = Some (s, node)"
  by (subst insert_at.simps) simp

lemma insert_at_eq_step:
  assumes "cells s r = Some rn" "cells s a = Some nn" "cmp (data rn) (data nn) = 0"
    "set_parent (delete_node (s\<lparr>tree_size := tree_size s - 1\<rparr>) (Some a)) (Some a) (Some r) = Some s2"
    "refresh_height s2 (Some r) = Some s5"
  shows "insert_at cmp bal s (Some r) (Some a) = bal s5 (Some r)"
  by (subst insert_at.simps) (simp add: assms deref_def Let_def)

lemma insert_at_left_step:
  assumes "cells s r = Some rn" "cells s a = Some nn" "cmp (data rn) (data nn) > 0"
    "set_parent s (Some a) (Some r) = Some s2"
    "cells s2 r = Some rn2"
    "(if left rn2 \<noteq> None then set_parent s2 (Some a) (left rn2) else Some s2) = Some sa"
    "cells sa r = Some rna"
    "insert_at cmp bal sa (left rna) (Some a) = Some (sb, res)"
    "set_left sb (Some r) res = Some s3"
    "refresh_height s3 (Some r) = Some s5"
  shows "insert_at cmp bal s (Some r) (Some a) = bal s5 (Some r)"
proof -
  have c: "cmp (data rn) (data nn) \<noteq> 0" "\<not> cmp (data rn) (data nn) < 0"
    using assms(3) by auto
  show ?thesis
    by (subst insert_at.simps)
       (simp only: assms c deref_def Let_def option.case Option.bind_lunit if_True if_False
          prod.case)
qed

lemma insert_at_right_step:
  assumes "cells s r = Some rn" "cells s a = Some nn" "cmp (data rn) (data nn) < 0"
    "set_parent s (Some a) (Some r) = Some s2"
    "cells s2 r = Some rn2"
    "(if right rn2 \<noteq> None then set_parent s2 (Some a) (right rn2) else Some s2) = Some sa"
    "cells sa r = Some rna"
    "insert_at cmp bal sa (right rna) (Some a) = Some (sb, res)"
    "set_right sb (Some r) res = Some s3"
    "refresh_height s3 (Some r) = Some s5"
  shows "insert_at cmp bal s (Some r) (Some a) = bal s5 (Some r)"
proof -
  have c: "cmp (data rn) (data nn) \<noteq> 0" "\<not> cmp (data rn) (data nn) > 0"
    using assms(3) by auto
  show ?thesis
    by (subst insert_at.simps)
       (simp only: assms c deref_def Let_def option.case Option.bind_lunit if_True if_False
          prod.case)
qed

lemma balance_same:
  assumes "tree_at (cells s) p t" "cached (cells s) t" "avl t"
  shows "balance s p = Some (s, p)"
proof -
  have "bf t \<le> 1 \<and> - 1 \<le> bf t" using assms(3) by (cases t) auto
  then show ?thesis
    using difference_cached [OF assms(1,2)] by (simp add: balance_def)
qed

lemma insert_at_equal:
  assumes "tree_at (cells s) rt t" "cached (cells s) t"
    and "bal = balance_base \<or> bal = balance \<and> avl t"
    and "cells s a = Some na" "a \<notin> addrs t"
    and "find_at cmp s rt (data na) = Some (Some e)"
  shows "insert_at cmp bal s rt (Some a) = Some (released s a (na\<lparr>parent := Some e\<rparr>), rt)"
  using assms
proof (induction t arbitrary: s rt na)
  case Tip
  then show ?case by simp
next
  case (Fork l r rr)
  from Fork.prems(1) obtain rn where rn: "rt = Some r" "cells s r = Some rn"
    "tree_at (cells s) (left rn) l" "tree_at (cells s) (right rn) rr"
    by (auto split: option.splits)
  from Fork.prems(2) rn have hr: "height rn = max (ht l) (ht rr) + 1" and
    cl: "cached (cells s) l" and cr: "cached (cells s) rr"
    by auto
  from Fork.prems(5) have ar: "a \<noteq> r" "a \<notin> addrs l" "a \<notin> addrs rr" by auto
  have bl: "bal = balance_base \<or> bal = balance \<and> avl l"
    and br: "bal = balance_base \<or> bal = balance \<and> avl rr"
    using Fork.prems(3) by auto
  define c where "c = cmp (data rn) (data na)"
  have finish: "refresh_height s' rt = Some s' \<and> bal s' rt = Some (s', rt)"
    if "\<forall>b. b \<noteq> a \<longrightarrow> cells s' b = cells s b" for s'
  proof -
    have eq: "\<forall>b\<in>addrs (Fork l r rr). cells s' b = cells s b"
      using that Fork.prems(5) by auto
    have t': "tree_at (cells s') rt (Fork l r rr)"
      unfolding tree_at_cong [OF eq] by (rule Fork.prems(1))
    have c': "cached (cells s') (Fork l r rr)"
      unfolding cached_cong [OF eq] by (rule Fork.prems(2))
    from t' c' have rn': "cells s' r = Some rn" using that ar rn by simp
    have "refresh_height s' (Some r) = Some s'"
      using rn' t' c' hr by (intro refresh_height_same [where l = l and rr = rr]) auto
    moreover have "bal s' rt = Some (s', rt)"
      using Fork.prems(3) balance_same [OF t' c'] by (auto simp: balance_base_def)
    ultimately show ?thesis using rn by simp
  qed
  have fin: "bal (released s a (na\<lparr>parent := Some e\<rparr>)) rt =
      Some (released s a (na\<lparr>parent := Some e\<rparr>), rt)"
    and ref: "refresh_height (released s a (na\<lparr>parent := Some e\<rparr>)) (Some r) =
      Some (released s a (na\<lparr>parent := Some e\<rparr>))"
    and rn_rel: "cells (released s a (na\<lparr>parent := Some e\<rparr>)) r = Some rn"
    using finish [of "released s a (na\<lparr>parent := Some e\<rparr>)"] ar rn
    by (simp_all add: released_def)
  show ?case
  proof (cases "c = 0")
    case True
    with Fork.prems(6) rn have e: "e = r"
      by (subst (asm) find_at.simps) (simp add: c_def)
    have sp: "set_parent (delete_node (s\<lparr>tree_size := tree_size s - 1\<rparr>) (Some a)) (Some a) (Some r) =
        Some (released s a (na\<lparr>parent := Some e\<rparr>))"
      using Fork.prems(4) e by (simp add: set_parent_def delete_node_def store_def released_def)
    have "insert_at cmp bal s (Some r) (Some a) = bal (released s a (na\<lparr>parent := Some e\<rparr>)) (Some r)"
      using True by (intro insert_at_eq_step [OF rn(2) Fork.prems(4) _ sp ref]) (simp add: c_def)
    then show ?thesis using fin rn by simp
  next
    case False
    show ?thesis
    proof (cases "c > 0")
      case True
      with Fork.prems(6) rn have fl: "find_at cmp s (left rn) (data na) = Some (Some e)"
        by (subst (asm) find_at.simps) (simp add: c_def)
      with rn(3) have ln: "left rn \<noteq> None" by (cases l) auto
      let ?s2 = "s\<lparr>cells := (cells s)(a := Some (na\<lparr>parent := Some r\<rparr>))\<rparr>"
      let ?na = "na\<lparr>parent := left rn\<rparr>"
      let ?sa = "s\<lparr>cells := (cells s)(a := Some ?na)\<rparr>"
      let ?sb = "released s a (na\<lparr>parent := Some e\<rparr>)"
      have 4: "set_parent s (Some a) (Some r) = Some ?s2"
        by (rule set_parent_Some [OF Fork.prems(4)])
      have 5: "cells ?s2 r = Some rn" using ar rn by simp
      have 6: "(if left rn \<noteq> None then set_parent ?s2 (Some a) (left rn) else Some ?s2) = Some ?sa"
        using ln by (simp add: set_parent_def store_def)
      have 7: "cells ?sa r = Some rn" using ar rn by simp
      have eq: "\<forall>b\<in>addrs l. cells ?sa b = cells s b" using ar by auto
      have ta: "tree_at (cells ?sa) (left rn) l"
        unfolding tree_at_cong [OF eq] by (rule rn(3))
      have ca: "cached (cells ?sa) l"
        unfolding cached_cong [OF eq] by (rule cl)
      have fa: "find_at cmp ?sa (left rn) (data ?na) = Some (Some e)"
        using find_at_cong [OF rn(3) eq] fl by simp
      have "insert_at cmp bal ?sa (left rn) (Some a) =
          Some (released ?sa a (?na\<lparr>parent := Some e\<rparr>), left rn)"
        by (rule Fork.IH(1) [OF ta ca bl _ ar(2) fa]) simp
      then have 8: "insert_at cmp bal ?sa (left rn) (Some a) = Some (?sb, left rn)"
        by (simp add: released_def)
      have 9: "set_left ?sb (Some r) (left rn) = Some ?sb"
        by (rule set_left_same [OF rn_rel])
      have "insert_at cmp bal s (Some r) (Some a) = bal ?sb (Some r)"
        using True
        by (intro insert_at_left_step [OF rn(2) Fork.prems(4) _ 4 5 6 7 8 9 ref]) (simp add: c_def)
      then show ?thesis using fin rn by simp
    next
      case nl: False
      with False have lt: "c < 0" by simp
      with Fork.prems(6) rn have fl: "find_at cmp s (right rn) (data na) = Some (Some e)"
        by (subst (asm) find_at.simps) (simp add: c_def)
      with rn(4) have ln: "right rn \<noteq> None" by (cases rr) auto
      let ?s2 = "s\<lparr>cells := (cells s)(a := Some (na\<lparr>parent := Some r\<rparr>))\<rparr>"
      let ?na = "na\<lparr>parent := right rn\<rparr>"
      let ?sa = "s\<lparr>cells := (cells s)(a := Some ?na)\<rparr>"
      let ?sb = "released s a (na\<lparr>parent := Some e\<rparr>)"
      have 4: "set_parent s (Some a) (Some r) = Some ?s2"
        by (rule set_parent_Some [OF Fork.prems(4)])
      have 5: "cells ?s2 r = Some rn" using ar rn by simp
      have 6: "(if right rn \<noteq> None then set_parent ?s2 (Some a) (right rn) else Some ?s2) = Some ?sa"
        using ln by (simp add: set_parent_def store_def)
      have 7: "cells ?sa r = Some rn" using ar rn by simp
      have eq: "\<forall>b\<in>addrs rr. cells ?sa b = cells s b" using ar by auto
      have ta: "tree_at (cells ?sa) (right rn) rr"
        unfolding tree_at_cong [OF eq] by (rule rn(4))
      have ca: "cached (cells ?sa) rr"
        unfolding cached_cong [OF eq] by (rule cr)
      have fa: "find_at cmp ?sa (right rn) (data ?na) = Some (Some e)"
        using find_at_cong [OF rn(4) eq] fl by simp
      have "insert_at cmp bal ?sa (right rn) (Some a) =
          Some (released ?sa a (?na\<lparr>parent := Some e\<rparr>), right rn)"
        by (rule Fork.IH(2) [OF ta ca br _ ar(3) fa]) simp
      then have 8: "insert_at cmp bal ?sa (right rn) (Some a) = Some (?sb, right rn)"
        by (simp add: released_def)
      have 9: "set_right ?sb (Some r) (right rn) = Some ?sb"
        by (rule set_right_same [OF rn_rel])
      have "insert_at cmp bal s (Some r) (Some a) = bal ?sb (Some r)"
        using lt
        by (intro insert_at_right_step [OF rn(2) Fork.prems(4) _ 4 5 6 7 8 9 ref]) (simp add: c_def)
      then show ?thesis using fin rn by simp
    qed
  qed
qed

lemma strict_total_order_default: "strict_total_order (compare_default :: ('a::linorder) comparator)"
  by (auto simp: strict_total_order_def compare_default_def)

lemma find_at_present:
  assumes "strict_total_order cmp" "tree_at (cells s) p t" "ordered cmp (cells s) t"
    and "e \<in> addrs t" "cmp_at cmp (cells s) v e = 0"
  shows "\<exists>e'. find_at cmp s p v = Some (Some e') \<and> e' \<in> addrs t \<and> cmp_at cmp (cells s) v e' = 0"
  using assms(2-)
proof (induction t arbitrary: p)
  case Tip
  then show ?case by simp
next
  case (Fork l a r)
  from Fork.prems(1) obtain n where n: "p = Some a" "cells s a = Some n"
    "tree_at (cells s) (left n) l" "tree_at (cells s) (right n) r"
    by (auto split: option.splits)
  from Fork.prems(2) n have o: "ordered cmp (cells s) l" "ordered cmp (cells s) r"
    "\<forall>b\<in>addrs l. cmp_at cmp (cells s) (data n) b < 0"
    "\<forall>b\<in>addrs r. cmp_at cmp (cells s) (data n) b > 0"
    by auto
  from tree_at_cell [OF Fork.prems(1,3)] obtain ne where ne: "cells s e = Some ne" by blast
  with Fork.prems(4) have ev: "cmp (data ne) v = 0" by (simp add: cmp_at_def)
  from assms(1) have flip: "\<And>x y. (cmp x y < 0) = (cmp y x > 0)"
    and tr: "\<And>x y z. cmp x y < 0 \<Longrightarrow> cmp y z < 0 \<Longrightarrow> cmp x z < 0"
    unfolding strict_total_order_def by blast+
  have trg: "cmp x y > 0 \<Longrightarrow> cmp y z > 0 \<Longrightarrow> cmp x z > 0" for x y z
    using tr [of z y x] flip by simp
  consider (E) "cmp (data n) v = 0" | (G) "cmp (data n) v > 0" | (L) "cmp (data n) v < 0"
    by linarith
  then show ?case
  proof cases
    case E
    then have "find_at cmp s p v = Some (Some a)"
      using n by (subst find_at.simps) simp
    then show ?thesis using E n by (auto simp: cmp_at_def)
  next
    case G
    have "e \<notin> addrs r"
    proof
      assume "e \<in> addrs r"
      with o(4) ne have "cmp (data ne) (data n) > 0" by (auto simp: cmp_at_def)
      from trg [OF this G] ev show False by simp
    qed
    moreover have "e \<noteq> a" using G ev n ne by auto
    ultimately have el: "e \<in> addrs l" using Fork.prems(3) by auto
    from Fork.IH(1) [OF n(3) o(1) el Fork.prems(4)] obtain e' where
      "find_at cmp s (left n) v = Some (Some e')" "e' \<in> addrs l"
      "cmp_at cmp (cells s) v e' = 0" by blast
    moreover have "find_at cmp s p v = find_at cmp s (left n) v"
      using n G by (subst find_at.simps) simp
    ultimately show ?thesis by auto
  next
    case L
    have "e \<notin> addrs l"
    proof
      assume "e \<in> addrs l"
      with o(3) ne have "cmp (data ne) (data n) < 0" by (auto simp: cmp_at_def)
      from tr [OF this L] ev show False by simp
    qed
    moreover have "e \<noteq> a" using L ev n ne by auto
    ultimately have el: "e \<in> addrs r" using Fork.prems(3) by auto
    from Fork.IH(2) [OF n(4) o(2) el Fork.prems(4)] obtain e' where
      "find_at cmp s (right n) v = Some (Some e')" "e' \<in> addrs r"
      "cmp_at cmp (cells s) v e' = 0" by blast
    moreover have "find_at cmp s p v = find_at cmp s (right n) v"
      using n L by (subst find_at.simps) simp
    ultimately show ?thesis by auto
  qed
qed

lemma three_nodes_tree:
  "tree_at (cells three_nodes) (tree_root three_nodes) three_nodes_shape"
  "ordered compare_default (cells three_nodes) three_nodes_shape"
  "cached (cells three_nodes) three_nodes_shape"
  "avl three_nodes_shape"
  "next_addr three_nodes \<notin> addrs three_nodes_shape"
  "3 \<in> addrs three_nodes_shape"
  "cmp_at compare_default (cells three_nodes) 3 3 = 0"
  by code_simp+

lemma right_spine_facts:
  "run compare_default balance (empty_tree :: int state)
     [Insert 2, Insert 1, Insert 3, Insert 4, Remove 1] \<noteq> None"
  "map_option data (cells right_spine 4) = Some 4"
  "tree_at (cells right_spine) (root right_spine) right_spine_shape"
  "cached (cells right_spine) right_spine_shape"
  "ordered compare_default (cells right_spine) right_spine_shape"
  "cmp_at compare_default (cells right_spine) 4 4 = 0"
  "root right_spine = Some 1"
  "map_option root (insert_data compare_default balance right_spine 4) = Some (Some 3)"
  by code_simp+

text \<open>
  C7, as the source has it. Take a tree that satisfies the ordering invariant and the height
  cache and, when it is an AVL tree, the balance invariant, and a value that compares equal
  to the value of one of its nodes (the comparator being a strict total order, and the
  address \<open>new\<close> hands out not being a node of the tree). Then \<open>insert\<close> of that value
  returns, and leaves \<open>size()\<close>, \<open>root()\<close> and every cell but the new node's as they were:
  the same nodes with the same links, heights and values. The new node is released.
\<close>

theorem insert_equal_value_unchanged:
  assumes "strict_total_order cmp"
    and "tree_at (cells s) (tree_root s) t" "ordered cmp (cells s) t" "cached (cells s) t"
    and "bal = balance_base \<or> bal = balance \<and> avl t"
    and "next_addr s \<notin> addrs t"
    and "e \<in> addrs t" "cmp_at cmp (cells s) v e = 0"
  shows "\<exists>s'. insert_data cmp bal s v = Some s' \<and> size_t s' = size_t s \<and> root s' = root s \<and>
     (\<forall>b. b \<noteq> next_addr s \<longrightarrow> cells s' b = cells s b) \<and>
     tree_at (cells s') (root s') t \<and> cached (cells s') t \<and> next_addr s \<in> freed s'"
proof -
  define a where "a = next_addr s"
  define na :: "'a node" where
    "na = \<lparr>data = v, parent = None, left = None, right = None, height = 1\<rparr>"
  define s1 where "s1 = s\<lparr>cells := (cells s)(a := Some na), next_addr := a + 1,
    tree_size := tree_size s + 1\<rparr>"
  from find_at_present [OF assms(1,2,3,7,8)] obtain e' where
    f: "find_at cmp s (tree_root s) v = Some (Some e')" by blast
  have eq: "\<forall>b\<in>addrs t. cells s1 b = cells s b"
    using assms(6) by (auto simp: s1_def a_def)
  have t1: "tree_at (cells s1) (tree_root s) t"
    unfolding tree_at_cong [OF eq] by (rule assms(2))
  have c1: "cached (cells s1) t"
    unfolding cached_cong [OF eq] by (rule assms(4))
  have f1: "find_at cmp s1 (tree_root s) (data na) = Some (Some e')"
    using find_at_cong [OF assms(2) eq] f by (simp add: na_def)
  have a1: "cells s1 a = Some na" by (simp add: s1_def)
  have an: "a \<notin> addrs t" using assms(6) by (simp add: a_def)
  define s' where "s' = released s1 a (na\<lparr>parent := Some e'\<rparr>)\<lparr>tree_root := tree_root s\<rparr>"
  have ia: "insert_at cmp bal s1 (tree_root s) (Some a) =
      Some (released s1 a (na\<lparr>parent := Some e'\<rparr>), tree_root s)"
    by (rule insert_at_equal [OF t1 c1 assms(5) a1 an f1])
  have run: "insert_data cmp bal s v = Some s'"
    using ia by (simp add: insert_data_def new_node_def insert_node_def s1_def a_def na_def s'_def)
  have eq': "\<forall>b\<in>addrs t. cells s' b = cells s b"
    using an by (auto simp: s'_def s1_def released_def)
  have "size_t s' = size_t s" "root s' = root s"
    "\<forall>b. b \<noteq> next_addr s \<longrightarrow> cells s' b = cells s b" "next_addr s \<in> freed s'"
    by (simp_all add: s'_def s1_def released_def size_t_def root_def a_def)
  moreover have "tree_at (cells s') (root s') t"
    unfolding tree_at_cong [OF eq'] using assms(2) by (simp add: root_def s'_def released_def)
  moreover have "cached (cells s') t"
    unfolding cached_cong [OF eq'] by (rule assms(4))
  ultimately show ?thesis using run by blast
qed

theorem insert_equal_value_unchanged_witness:
  "\<exists>s'. insert_data compare_default balance three_nodes 3 = Some s' \<and>
     size_t s' = size_t three_nodes \<and> root s' = root three_nodes \<and>
     (\<forall>b. b \<noteq> next_addr three_nodes \<longrightarrow> cells s' b = cells three_nodes b) \<and>
     tree_at (cells s') (root s') three_nodes_shape \<and> cached (cells s') three_nodes_shape \<and>
     next_addr three_nodes \<in> freed s'"
proof -
  have b: "(balance :: int hook) = balance_base \<or> (balance :: int hook) = balance \<and> avl three_nodes_shape"
    using three_nodes_tree(4) by simp
  show ?thesis
    by (rule insert_equal_value_unchanged [OF strict_total_order_default three_nodes_tree(1,2,3) b
          three_nodes_tree(5,6,7)])
qed

text \<open>
  C7, as the claim states it, for every tree. \<open>right_spine\<close> is an AVL tree after a
  removal: an ordered tree with a correct height cache whose root has balance factor -2. It
  holds the value 4 (at address 4). Inserting 4 again unwinds through the hook at every node
  of the search path, the root is rotated, and \<open>root()\<close> changes from the node of 2
  (address 1) to the node of 3 (address 3).
\<close>

theorem insert_equal_value_rebalances_counterexample:
  "run compare_default balance (empty_tree :: int state)
     [Insert 2, Insert 1, Insert 3, Insert 4, Remove 1] \<noteq> None \<and>
   map_option data (cells right_spine 4) = Some 4 \<and>
   tree_at (cells right_spine) (root right_spine) right_spine_shape \<and>
   cached (cells right_spine) right_spine_shape \<and>
   ordered compare_default (cells right_spine) right_spine_shape \<and>
   cmp_at compare_default (cells right_spine) 4 4 = 0 \<and>
   root right_spine = Some 1 \<and>
   map_option root (insert_data compare_default balance right_spine 4) = Some (Some 3)"
  using right_spine_facts by blast

section \<open>Rotations and the hook on trees\<close>

lemma rr_rotate_tree:
  assumes t: "tree_at (cells s) (Some r) (Fork A r (Fork B p C))"
    and c: "cached (cells s) A" "cached (cells s) B" "cached (cells s) C"
  shows "hook_post s (rr_rotate s (Some r)) (Fork (Fork A r B) p C) {r, p}"
proof -
  from t have d: "r \<noteq> p" "r \<notin> addrs A" "r \<notin> addrs B" "r \<notin> addrs C"
    "p \<notin> addrs A" "p \<notin> addrs B" "p \<notin> addrs C"
    "addrs A \<inter> addrs B = {}" "addrs A \<inter> addrs C = {}" "addrs B \<inter> addrs C = {}"
    by (auto split: option.splits)
  from t obtain rn where rn: "cells s r = Some rn" "right rn = Some p"
    "tree_at (cells s) (left rn) A" "tree_at (cells s) (right rn) (Fork B p C)"
    by (auto split: option.splits)
  from rn(2,4) obtain pn where pn: "cells s p = Some pn" "tree_at (cells s) (left pn) B"
    "tree_at (cells s) (right pn) C"
    by (auto split: option.splits)
  define h1 where "h1 = (cells s)(r := Some (rn\<lparr>right := left pn\<rparr>))"
  define h2 where "h2 = h1(p := Some (pn\<lparr>left := Some r\<rparr>))"
  define h3 where "h3 = h2(r := Some (rn\<lparr>right := left pn, height := max (ht A) (ht B) + 1\<rparr>))"
  define h' where "h' = h3(p := Some (pn\<lparr>left := Some r,
     height := max (max (ht A) (ht B) + 1) (ht C) + 1\<rparr>))"
  have 1: "set_right s (Some r) (left pn) = Some (s\<lparr>cells := h1\<rparr>)"
    using rn by (simp add: set_right_Some h1_def)
  have 2: "set_left (s\<lparr>cells := h1\<rparr>) (Some p) (Some r) = Some (s\<lparr>cells := h2\<rparr>)"
    using pn d by (simp add: set_left_Some h1_def h2_def)
  have "refresh_height (s\<lparr>cells := h2\<rparr>) (Some r) =
      Some (s\<lparr>cells := h2\<rparr>\<lparr>cells := (cells (s\<lparr>cells := h2\<rparr>))(r :=
        Some (rn\<lparr>right := left pn\<rparr>\<lparr>height := max (ht A) (ht B) + 1\<rparr>))\<rparr>)"
    using rn pn d c
    by (intro refresh_height_Some) (simp_all add: h1_def h2_def tree_at_upd cached_upd)
  then have 3: "refresh_height (s\<lparr>cells := h2\<rparr>) (Some r) = Some (s\<lparr>cells := h3\<rparr>)"
    by (simp add: h3_def)
  have "refresh_height (s\<lparr>cells := h3\<rparr>) (Some p) =
      Some (s\<lparr>cells := h3\<rparr>\<lparr>cells := (cells (s\<lparr>cells := h3\<rparr>))(p :=
        Some (pn\<lparr>left := Some r\<rparr>\<lparr>height := max (ht (Fork A r B)) (ht C) + 1\<rparr>))\<rparr>)"
    using rn pn d c
    by (intro refresh_height_Some) (simp_all add: h1_def h2_def h3_def tree_at_upd cached_upd)
  then have 4: "refresh_height (s\<lparr>cells := h3\<rparr>) (Some p) = Some (s\<lparr>cells := h'\<rparr>)"
    by (simp add: h'_def)
  have run: "rr_rotate s (Some r) = Some (s\<lparr>cells := h'\<rparr>, Some p)"
    using rn pn 1 2 3 4 by (simp add: rr_rotate_def deref_def)
  have ta: "tree_at h' (Some p) (Fork (Fork A r B) p C)"
    using rn pn d by (auto simp: h'_def h3_def h2_def h1_def tree_at_upd)
  have ca: "cached h' (Fork (Fork A r B) p C)"
    using c d by (simp add: h'_def h3_def h2_def h1_def cached_upd)
  have fr: "\<forall>b. b \<notin> {r, p} \<longrightarrow> h' b = cells s b"
    by (simp add: h'_def h3_def h2_def h1_def)
  have da: "\<forall>b. map_option data (h' b) = map_option data (cells s b)"
    using rn pn by (simp add: h'_def h3_def h2_def h1_def)
  from run ta ca fr da show ?thesis unfolding hook_post_def by auto
qed

lemma ll_rotate_tree:
  assumes t: "tree_at (cells s) (Some r) (Fork (Fork A p B) r C)"
    and c: "cached (cells s) A" "cached (cells s) B" "cached (cells s) C"
  shows "hook_post s (ll_rotate s (Some r)) (Fork A p (Fork B r C)) {r, p}"
proof -
  from t have d: "r \<noteq> p" "r \<notin> addrs A" "r \<notin> addrs B" "r \<notin> addrs C"
    "p \<notin> addrs A" "p \<notin> addrs B" "p \<notin> addrs C"
    "addrs A \<inter> addrs B = {}" "addrs A \<inter> addrs C = {}" "addrs B \<inter> addrs C = {}"
    by (auto split: option.splits)
  from t obtain rn where rn: "cells s r = Some rn" "left rn = Some p"
    "tree_at (cells s) (right rn) C" "tree_at (cells s) (left rn) (Fork A p B)"
    by (auto split: option.splits)
  from rn(2,4) obtain pn where pn: "cells s p = Some pn" "tree_at (cells s) (left pn) A"
    "tree_at (cells s) (right pn) B"
    by (auto split: option.splits)
  define h1 where "h1 = (cells s)(r := Some (rn\<lparr>left := right pn\<rparr>))"
  define h2 where "h2 = h1(p := Some (pn\<lparr>right := Some r\<rparr>))"
  define h3 where "h3 = h2(r := Some (rn\<lparr>left := right pn, height := max (ht B) (ht C) + 1\<rparr>))"
  define h' where "h' = h3(p := Some (pn\<lparr>right := Some r,
     height := max (ht A) (max (ht B) (ht C) + 1) + 1\<rparr>))"
  have 1: "set_left s (Some r) (right pn) = Some (s\<lparr>cells := h1\<rparr>)"
    using rn by (simp add: set_left_Some h1_def)
  have 2: "set_right (s\<lparr>cells := h1\<rparr>) (Some p) (Some r) = Some (s\<lparr>cells := h2\<rparr>)"
    using pn d by (simp add: set_right_Some h1_def h2_def)
  have "refresh_height (s\<lparr>cells := h2\<rparr>) (Some r) =
      Some (s\<lparr>cells := h2\<rparr>\<lparr>cells := (cells (s\<lparr>cells := h2\<rparr>))(r :=
        Some (rn\<lparr>left := right pn\<rparr>\<lparr>height := max (ht B) (ht C) + 1\<rparr>))\<rparr>)"
    using rn pn d c
    by (intro refresh_height_Some) (simp_all add: h1_def h2_def tree_at_upd cached_upd)
  then have 3: "refresh_height (s\<lparr>cells := h2\<rparr>) (Some r) = Some (s\<lparr>cells := h3\<rparr>)"
    by (simp add: h3_def)
  have "refresh_height (s\<lparr>cells := h3\<rparr>) (Some p) =
      Some (s\<lparr>cells := h3\<rparr>\<lparr>cells := (cells (s\<lparr>cells := h3\<rparr>))(p :=
        Some (pn\<lparr>right := Some r\<rparr>\<lparr>height := max (ht A) (ht (Fork B r C)) + 1\<rparr>))\<rparr>)"
    using rn pn d c
    by (intro refresh_height_Some) (simp_all add: h1_def h2_def h3_def tree_at_upd cached_upd)
  then have 4: "refresh_height (s\<lparr>cells := h3\<rparr>) (Some p) = Some (s\<lparr>cells := h'\<rparr>)"
    by (simp add: h'_def)
  have run: "ll_rotate s (Some r) = Some (s\<lparr>cells := h'\<rparr>, Some p)"
    using rn pn 1 2 3 4 by (simp add: ll_rotate_def deref_def)
  have ta: "tree_at h' (Some p) (Fork A p (Fork B r C))"
    using rn pn d by (auto simp: h'_def h3_def h2_def h1_def tree_at_upd)
  have ca: "cached h' (Fork A p (Fork B r C))"
    using c d by (simp add: h'_def h3_def h2_def h1_def cached_upd)
  have fr: "\<forall>b. b \<notin> {r, p} \<longrightarrow> h' b = cells s b"
    by (simp add: h'_def h3_def h2_def h1_def)
  have da: "\<forall>b. map_option data (h' b) = map_option data (cells s b)"
    using rn pn by (simp add: h'_def h3_def h2_def h1_def)
  from run ta ca fr da show ?thesis unfolding hook_post_def by auto
qed

lemma lr_rotate_tree:
  assumes t: "tree_at (cells s) (Some r) (Fork (Fork A p (Fork B1 q B2)) r C)"
    and c: "cached (cells s) A" "cached (cells s) B1" "cached (cells s) B2" "cached (cells s) C"
  shows "hook_post s (lr_rotate s (Some r)) (Fork (Fork A p B1) q (Fork B2 r C)) {r, p, q}"
proof -
  let ?L = "Fork A p (Fork B1 q B2)"
  let ?L' = "Fork (Fork A p B1) q B2"
  from t have d: "r \<notin> addrs ?L" "r \<notin> addrs C" "addrs ?L \<inter> addrs C = {}"
    by (auto split: option.splits)
  from t obtain rn where rn: "cells s r = Some rn" "left rn = Some p"
    "tree_at (cells s) (Some p) ?L" "tree_at (cells s) (right rn) C"
    by (auto split: option.splits)
  from rr_rotate_tree [OF rn(3) c(1,2,3)] obtain h1 where
    h1: "rr_rotate s (Some p) = Some (s\<lparr>cells := h1\<rparr>, Some q)"
      "tree_at h1 (Some q) ?L'" "cached h1 ?L'"
      "\<forall>b. b \<notin> {p, q} \<longrightarrow> h1 b = cells s b"
      "\<forall>b. map_option data (h1 b) = map_option data (cells s b)"
    unfolding hook_post_def by auto
  have h1r: "h1 r = Some rn" using h1(4) d rn by auto
  define h2 where "h2 = h1(r := Some (rn\<lparr>left := Some q\<rparr>))"
  have 2: "set_left (s\<lparr>cells := h1\<rparr>) (Some r) (Some q) = Some (s\<lparr>cells := h2\<rparr>)"
    using h1r by (simp add: set_left_Some h2_def)
  have eqC: "\<forall>b\<in>addrs C. h2 b = cells s b"
    using d h1(4) by (auto simp: h2_def)
  have tC: "tree_at h2 (right rn) C"
    unfolding tree_at_cong [OF eqC] by (rule rn(4))
  have cC: "cached h2 C"
    unfolding cached_cong [OF eqC] by (rule c(4))
  have rL': "r \<notin> addrs ?L'" using d by auto
  have tL: "tree_at h2 (Some q) ?L'"
    unfolding h2_def tree_at_upd [OF rL'] by (rule h1(2))
  have cL: "cached h2 ?L'"
    unfolding h2_def cached_upd [OF rL'] by (rule h1(3))
  have t2: "tree_at (cells (s\<lparr>cells := h2\<rparr>)) (Some r) (Fork ?L' r C)"
    using tL tC d by (auto simp: h2_def)
  from cL have cs: "cached (cells (s\<lparr>cells := h2\<rparr>)) (Fork A p B1)"
    "cached (cells (s\<lparr>cells := h2\<rparr>)) B2" by auto
  from cC have cC': "cached (cells (s\<lparr>cells := h2\<rparr>)) C" by simp
  from ll_rotate_tree [OF t2 cs cC'] obtain h3 where
    h3: "ll_rotate (s\<lparr>cells := h2\<rparr>) (Some r) = Some (s\<lparr>cells := h3\<rparr>, Some q)"
      "tree_at h3 (Some q) (Fork (Fork A p B1) q (Fork B2 r C))"
      "cached h3 (Fork (Fork A p B1) q (Fork B2 r C))"
      "\<forall>b. b \<notin> {r, q} \<longrightarrow> h3 b = h2 b"
      "\<forall>b. map_option data (h3 b) = map_option data (h2 b)"
    unfolding hook_post_def by auto
  have run: "lr_rotate s (Some r) = Some (s\<lparr>cells := h3\<rparr>, Some q)"
    using rn h1(1) 2 h3(1) by (simp add: lr_rotate_def deref_def)
  have fr: "\<forall>b. b \<notin> {r, p, q} \<longrightarrow> h3 b = cells s b"
    using h3(4) h1(4) by (auto simp: h2_def)
  have da: "\<forall>b. map_option data (h3 b) = map_option data (cells s b)"
    using h3(5) h1(5) rn by (auto simp: h2_def)
  from run h3(2,3) fr da show ?thesis unfolding hook_post_def by auto
qed

lemma rl_rotate_tree:
  assumes t: "tree_at (cells s) (Some r) (Fork A r (Fork (Fork B1 q B2) p C))"
    and c: "cached (cells s) A" "cached (cells s) B1" "cached (cells s) B2" "cached (cells s) C"
  shows "hook_post s (rl_rotate s (Some r)) (Fork (Fork A r B1) q (Fork B2 p C)) {r, p, q}"
proof -
  let ?R = "Fork (Fork B1 q B2) p C"
  let ?R' = "Fork B1 q (Fork B2 p C)"
  from t have d: "r \<notin> addrs ?R" "r \<notin> addrs A" "addrs A \<inter> addrs ?R = {}"
    by (auto split: option.splits)
  from t obtain rn where rn: "cells s r = Some rn" "right rn = Some p"
    "tree_at (cells s) (Some p) ?R" "tree_at (cells s) (left rn) A"
    by (auto split: option.splits)
  from ll_rotate_tree [OF rn(3) c(2,3,4)] obtain h1 where
    h1: "ll_rotate s (Some p) = Some (s\<lparr>cells := h1\<rparr>, Some q)"
      "tree_at h1 (Some q) ?R'" "cached h1 ?R'"
      "\<forall>b. b \<notin> {p, q} \<longrightarrow> h1 b = cells s b"
      "\<forall>b. map_option data (h1 b) = map_option data (cells s b)"
    unfolding hook_post_def by auto
  have h1r: "h1 r = Some rn" using h1(4) d rn by auto
  define h2 where "h2 = h1(r := Some (rn\<lparr>right := Some q\<rparr>))"
  have 2: "set_right (s\<lparr>cells := h1\<rparr>) (Some r) (Some q) = Some (s\<lparr>cells := h2\<rparr>)"
    using h1r by (simp add: set_right_Some h2_def)
  have eqA: "\<forall>b\<in>addrs A. h2 b = cells s b"
    using d h1(4) by (auto simp: h2_def)
  have tA: "tree_at h2 (left rn) A"
    unfolding tree_at_cong [OF eqA] by (rule rn(4))
  have cA: "cached h2 A"
    unfolding cached_cong [OF eqA] by (rule c(1))
  have rR': "r \<notin> addrs ?R'" using d by auto
  have tR: "tree_at h2 (Some q) ?R'"
    unfolding h2_def tree_at_upd [OF rR'] by (rule h1(2))
  have cR: "cached h2 ?R'"
    unfolding h2_def cached_upd [OF rR'] by (rule h1(3))
  have t2: "tree_at (cells (s\<lparr>cells := h2\<rparr>)) (Some r) (Fork A r ?R')"
    using tR tA d by (auto simp: h2_def)
  from cR have cs: "cached (cells (s\<lparr>cells := h2\<rparr>)) B1"
    "cached (cells (s\<lparr>cells := h2\<rparr>)) (Fork B2 p C)" by auto
  from cA have cA': "cached (cells (s\<lparr>cells := h2\<rparr>)) A" by simp
  from rr_rotate_tree [OF t2 cA' cs] obtain h3 where
    h3: "rr_rotate (s\<lparr>cells := h2\<rparr>) (Some r) = Some (s\<lparr>cells := h3\<rparr>, Some q)"
      "tree_at h3 (Some q) (Fork (Fork A r B1) q (Fork B2 p C))"
      "cached h3 (Fork (Fork A r B1) q (Fork B2 p C))"
      "\<forall>b. b \<notin> {r, q} \<longrightarrow> h3 b = h2 b"
      "\<forall>b. map_option data (h3 b) = map_option data (h2 b)"
    unfolding hook_post_def by auto
  have run: "rl_rotate s (Some r) = Some (s\<lparr>cells := h3\<rparr>, Some q)"
    using rn h1(1) 2 h3(1) by (simp add: rl_rotate_def deref_def)
  have fr: "\<forall>b. b \<notin> {r, p, q} \<longrightarrow> h3 b = cells s b"
    using h3(4) h1(4) by (auto simp: h2_def)
  have da: "\<forall>b. map_option data (h3 b) = map_option data (cells s b)"
    using h3(5) h1(5) rn by (auto simp: h2_def)
  from run h3(2,3) fr da show ?thesis unfolding hook_post_def by auto
qed

lemma hook_post_mono: "hook_post s res t X \<Longrightarrow> X \<subseteq> Y \<Longrightarrow> hook_post s res t Y"
  unfolding hook_post_def by blast

lemma hook_post_id:
  assumes "tree_at (cells s) p t" "cached (cells s) t"
  shows "hook_post s (Some (s, p)) t X"
  unfolding hook_post_def using assms tree_at_top [OF assms(1)]
  by (intro exI [of _ "cells s"]) simp

lemma ht_ge2_Fork: "ht t \<ge> 1 \<Longrightarrow> \<exists>l a r. t = Fork l a r"
  by (cases t) auto

lemma balance_tree:
  assumes t: "tree_at (cells s) p t" and c: "cached (cells s) t"
  shows "hook_post s (balance s p) (bal_sh t) (addrs t)"
proof (cases t)
  case Tip
  with t have "balance s p = Some (s, None)"
    by (simp add: balance_def difference_def)
  then show ?thesis using Tip hook_post_id [OF t c] t by simp
next
  case (Fork l r rr)
  from t Fork obtain rn where rn: "p = Some r" "cells s r = Some rn"
    "tree_at (cells s) (left rn) l" "tree_at (cells s) (right rn) rr"
    by (auto split: option.splits)
  from c Fork have cl: "cached (cells s) l" and cr: "cached (cells s) rr" by auto
  have df: "difference s p = Some (bf t)" by (rule difference_cached [OF t c])
  have dl: "difference s (left rn) = Some (bf l)" by (rule difference_cached [OF rn(3) cl])
  have dr: "difference s (right rn) = Some (bf rr)" by (rule difference_cached [OF rn(4) cr])
  consider (L) "bf t > 1" | (R) "bf t < - 1" | (M) "\<not> bf t > 1" "\<not> bf t < - 1" by linarith
  then show ?thesis
  proof cases
    case L
    then have "ht l \<ge> 1" using Fork by simp
    then obtain A q B where l: "l = Fork A q B" using ht_ge2_Fork by blast
    from cl l have cA: "cached (cells s) A" and cB: "cached (cells s) B" by auto
    show ?thesis
    proof (cases "bf l > 0")
      case True
      have b: "balance s p = ll_rotate s (Some r)"
        using df dl L True rn by (simp add: balance_def deref_def)
      have "hook_post s (ll_rotate s (Some r)) (Fork A q (Fork B r rr)) {r, q}"
        using t Fork l rn by (intro ll_rotate_tree cA cB cr) simp
      then have "hook_post s (balance s p) (bal_sh t) {r, q}"
        using b L True Fork l by simp
      then show ?thesis by (rule hook_post_mono) (simp add: Fork l)
    next
      case False
      have b: "balance s p = lr_rotate s (Some r)"
        using df dl L False rn by (simp add: balance_def deref_def)
      from L False Fork l have "ht B \<ge> 1" by auto
      then obtain B1 q' B2 where B: "B = Fork B1 q' B2" using ht_ge2_Fork by blast
      from cB B have cB1: "cached (cells s) B1" and cB2: "cached (cells s) B2" by auto
      have "hook_post s (lr_rotate s (Some r)) (Fork (Fork A q B1) q' (Fork B2 r rr)) {r, q, q'}"
        using t Fork l B rn by (intro lr_rotate_tree cA cB1 cB2 cr) simp
      then have "hook_post s (balance s p) (bal_sh t) {r, q, q'}"
        using b L False Fork l B by simp
      then show ?thesis by (rule hook_post_mono) (simp add: Fork l B)
    qed
  next
    case R
    then have "ht rr \<ge> 1" using Fork by simp
    then obtain A q B where l: "rr = Fork A q B" using ht_ge2_Fork by blast
    from cr l have cA: "cached (cells s) A" and cB: "cached (cells s) B" by auto
    show ?thesis
    proof (cases "bf rr > 0")
      case False
      have b: "balance s p = rr_rotate s (Some r)"
        using df dr R False rn by (simp add: balance_def deref_def)
      have "hook_post s (rr_rotate s (Some r)) (Fork (Fork l r A) q B) {r, q}"
        using t Fork l rn by (intro rr_rotate_tree cA cB cl) simp
      then have "hook_post s (balance s p) (bal_sh t) {r, q}"
        using b R False Fork l by simp
      then show ?thesis by (rule hook_post_mono) (simp add: Fork l)
    next
      case True
      have b: "balance s p = rl_rotate s (Some r)"
        using df dr R True rn by (simp add: balance_def deref_def)
      from R True Fork l have "ht A \<ge> 1" by auto
      then obtain B1 q' B2 where B: "A = Fork B1 q' B2" using ht_ge2_Fork by blast
      from cA B have cB1: "cached (cells s) B1" and cB2: "cached (cells s) B2" by auto
      have "hook_post s (rl_rotate s (Some r)) (Fork (Fork l r B1) q' (Fork B2 q B)) {r, q, q'}"
        using t Fork l B rn by (intro rl_rotate_tree cl cB1 cB2 cB) simp
      then have "hook_post s (balance s p) (bal_sh t) {r, q, q'}"
        using b R True Fork l B by simp
      then show ?thesis by (rule hook_post_mono) (simp add: Fork l B)
    qed
  next
    case M
    have b: "balance s p = Some (s, p)"
      using df M by (simp add: balance_def)
    have "bal_sh t = t" using M Fork by simp
    then show ?thesis
      using b hook_post_id [OF t c] by simp
  qed
qed

section \<open>The recursive insert on trees\<close>

lemma addrs_rr_sh [simp]: "addrs (rr_sh t) = addrs t"
  by (induction t rule: rr_sh.induct) auto

lemma addrs_ll_sh [simp]: "addrs (ll_sh t) = addrs t"
  by (induction t rule: ll_sh.induct) auto

lemma addrs_lr_sh [simp]: "addrs (lr_sh t) = addrs t"
  by (cases t) auto

lemma addrs_rl_sh [simp]: "addrs (rl_sh t) = addrs t"
  by (cases t) auto

lemma addrs_bal_sh [simp]: "addrs (bal_sh t) = addrs t"
  by (cases t) (simp_all del: lr_sh.simps rl_sh.simps ll_sh.simps rr_sh.simps)

lemma addrs_ins_sh: "addrs (ins_sh c a t) \<subseteq> insert a (addrs t)"
  by (induction t) (auto simp del: bal_sh.simps)

lemma cmp_at_data_cong:
  "\<forall>b. map_option data (h' b) = map_option data (h b) \<Longrightarrow> cmp_at cmp h' v = cmp_at cmp h v"
proof (rule ext)
  fix r
  assume a: "\<forall>b. map_option data (h' b) = map_option data (h b)"
  then have "map_option data (h' r) = map_option data (h r)" by simp
  then show "cmp_at cmp h' v r = cmp_at cmp h v r"
    by (cases "h' r"; cases "h r") (simp_all add: cmp_at_def)
qed

lemma insert_at_tree:
  assumes "tree_at (cells s) rt t" "cached (cells s) t"
    and "cells s a = Some na" "left na = None" "right na = None" "height na = 1"
    and "a \<notin> addrs t"
  shows "ins_post s (insert_at cmp balance s rt (Some a)) t a
           (ins_sh (cmp_at cmp (cells s) (data na)) a t)"
  using assms
proof (induction t arbitrary: s rt na)
  case Tip
  then show ?case
    by (simp add: insert_at_Tip ins_post_def)
next
  case (Fork l r rr)
  define c where "c = cmp_at cmp (cells s) (data na)"
  from Fork.prems(1) obtain rn where rn: "rt = Some r" "cells s r = Some rn"
    "tree_at (cells s) (left rn) l" "tree_at (cells s) (right rn) rr"
    by (auto split: option.splits)
  from Fork.prems(1) have d: "r \<notin> addrs l" "r \<notin> addrs rr" "addrs l \<inter> addrs rr = {}"
    by auto
  from Fork.prems(2) rn have hr: "height rn = max (ht l) (ht rr) + 1" and
    cl: "cached (cells s) l" and cr: "cached (cells s) rr"
    by auto
  from Fork.prems(7) have ar: "a \<noteq> r" "a \<notin> addrs l" "a \<notin> addrs rr" by auto
  have cr_eq: "c r = cmp (data rn) (data na)"
    using rn by (simp add: c_def cmp_at_def)
  note na = Fork.prems(3)
  show ?case
  proof (cases "c r = 0")
    case True
    let ?s2 = "released s a (na\<lparr>parent := Some r\<rparr>)"
    have sp: "set_parent (delete_node (s\<lparr>tree_size := tree_size s - 1\<rparr>) (Some a)) (Some a) (Some r) =
        Some ?s2"
      using na by (simp add: set_parent_def delete_node_def store_def released_def)
    have eq: "\<forall>b\<in>addrs (Fork l r rr). cells ?s2 b = cells s b"
      using Fork.prems(7) by (auto simp: released_def)
    have t2: "tree_at (cells ?s2) (Some r) (Fork l r rr)"
      unfolding tree_at_cong [OF eq] using Fork.prems(1) rn by simp
    have c2: "cached (cells ?s2) (Fork l r rr)"
      unfolding cached_cong [OF eq] by (rule Fork.prems(2))
    have rn2: "cells ?s2 r = Some rn" using ar rn by (simp add: released_def)
    have ref: "refresh_height ?s2 (Some r) = Some ?s2"
      using rn2 t2 c2 hr by (intro refresh_height_same [where l = l and rr = rr]) auto
    have run: "insert_at cmp balance s (Some r) (Some a) = balance ?s2 (Some r)"
      using True by (intro insert_at_eq_step [OF rn(2) na _ sp ref]) (simp add: cr_eq)
    have sh: "ins_sh c a (Fork l r rr) = bal_sh (Fork l r rr)"
      using True by simp
    from balance_tree [OF t2 c2] obtain h' where
      h': "balance ?s2 (Some r) = Some (?s2\<lparr>cells := h'\<rparr>, top (bal_sh (Fork l r rr)))"
        "tree_at h' (top (bal_sh (Fork l r rr))) (bal_sh (Fork l r rr))"
        "cached h' (bal_sh (Fork l r rr))"
        "\<forall>b. b \<notin> addrs (Fork l r rr) \<longrightarrow> h' b = cells ?s2 b"
        "\<forall>b. map_option data (h' b) = map_option data (cells ?s2 b)"
      unfolding hook_post_def by auto
    have fr: "\<forall>b. b \<notin> addrs (Fork l r rr) \<and> b \<noteq> a \<longrightarrow> h' b = cells s b"
      using h'(4) by (auto simp: released_def)
    have da: "\<forall>b. map_option data (h' b) = map_option data (cells s b)"
      using h'(5) na by (auto simp: released_def)
    show ?thesis
      unfolding ins_post_def c_def [symmetric] sh rn(1) run h'(1)
      using h'(2,3) fr da
      by (intro exI [of _ "?s2\<lparr>cells := h'\<rparr>"]) (simp add: released_def)
  next
    case False
    show ?thesis
    proof (cases "0 < c r")
      case True
      let ?s2 = "s\<lparr>cells := (cells s)(a := Some (na\<lparr>parent := Some r\<rparr>))\<rparr>"
      define na' where "na' = na\<lparr>parent := (if left rn \<noteq> None then left rn else Some r)\<rparr>"
      define sa where "sa = s\<lparr>cells := (cells s)(a := Some na')\<rparr>"
      have 4: "set_parent s (Some a) (Some r) = Some ?s2"
        by (rule set_parent_Some [OF na])
      have 5: "cells ?s2 r = Some rn" using ar rn by simp
      have 6: "(if left rn \<noteq> None then set_parent ?s2 (Some a) (left rn) else Some ?s2) = Some sa"
        by (simp add: set_parent_def store_def sa_def na'_def)
      have 7: "cells sa r = Some rn" using ar rn by (simp add: sa_def)
      have eq: "\<forall>b\<in>addrs l. cells sa b = cells s b" using ar by (auto simp: sa_def)
      have ta: "tree_at (cells sa) (left rn) l"
        unfolding tree_at_cong [OF eq] by (rule rn(3))
      have ca: "cached (cells sa) l"
        unfolding cached_cong [OF eq] by (rule cl)
      have naa: "cells sa a = Some na'" by (simp add: sa_def)
      have nf: "left na' = None" "right na' = None" "height na' = 1" "data na' = data na"
        using Fork.prems(4,5,6) by (simp_all add: na'_def)
      have "\<forall>b. map_option data (cells sa b) = map_option data (cells s b)"
        using na by (simp add: sa_def na'_def)
      then have ceq: "cmp_at cmp (cells sa) (data na') = c"
        unfolding c_def nf(4) by (rule cmp_at_data_cong)
      define l' where "l' = ins_sh c a l"
      have "ins_post sa (insert_at cmp balance sa (left rn) (Some a)) l a l'"
        using Fork.IH(1) [OF ta ca naa nf(1,2,3) ar(2)] by (simp add: ceq l'_def)
      then obtain sb where
        sb: "insert_at cmp balance sa (left rn) (Some a) = Some (sb, top l')"
          "tree_at (cells sb) (top l') l'" "cached (cells sb) l'"
          "\<forall>b. b \<notin> addrs l \<and> b \<noteq> a \<longrightarrow> cells sb b = cells sa b"
          "\<forall>b. map_option data (cells sb b) = map_option data (cells sa b)"
          "next_addr sb = next_addr sa"
        unfolding ins_post_def by auto
      have sub: "addrs l' \<subseteq> insert a (addrs l)"
        unfolding l'_def by (rule addrs_ins_sh)
      have rl': "r \<notin> addrs l'" using sub d ar by auto
      have sbr: "cells sb r = Some rn" using sb(4) d ar 7 by auto
      define s3 where "s3 = sb\<lparr>cells := (cells sb)(r := Some (rn\<lparr>left := top l'\<rparr>))\<rparr>"
      have 9: "set_left sb (Some r) (top l') = Some s3"
        unfolding s3_def by (rule set_left_Some [OF sbr])
      have eqo: "\<forall>b\<in>addrs rr. cells s3 b = cells s b"
        using d ar sb(4) by (auto simp: s3_def sa_def)
      have to3: "tree_at (cells s3) (right rn) rr"
        unfolding tree_at_cong [OF eqo] by (rule rn(4))
      have co3: "cached (cells s3) rr"
        unfolding cached_cong [OF eqo] by (rule cr)
      have tl3: "tree_at (cells s3) (top l') l'"
        using sb(2) rl' by (simp add: s3_def tree_at_upd)
      have cl3: "cached (cells s3) l'"
        using sb(3) rl' by (simp add: s3_def cached_upd)
      define s5 where "s5 = s3\<lparr>cells := (cells s3)(r :=
        Some (rn\<lparr>left := top l'\<rparr>\<lparr>height := max (ht l') (ht rr) + 1\<rparr>))\<rparr>"
      have s3r: "cells s3 r = Some (rn\<lparr>left := top l'\<rparr>)" by (simp add: s3_def)
      have 10: "refresh_height s3 (Some r) = Some s5"
        unfolding s5_def using tl3 cl3 to3 co3
        by (intro refresh_height_Some [OF s3r]) simp_all
      have run: "insert_at cmp balance s (Some r) (Some a) = balance s5 (Some r)"
        using True by (intro insert_at_left_step [OF rn(2) na _ 4 5 6 7 sb(1) 9 10]) (simp add: cr_eq)
      have dj: "addrs l' \<inter> addrs rr = {}" using sub d ar by auto
      have t5: "tree_at (cells s5) (Some r) (Fork l' r rr)"
        using tl3 to3 rl' d dj by (auto simp: s5_def tree_at_upd)
      have c5: "cached (cells s5) (Fork l' r rr)"
        using cl3 co3 rl' d by (simp add: s5_def cached_upd)
      have sh: "ins_sh c a (Fork l r rr) = bal_sh (Fork l' r rr)"
        using True by (simp add: l'_def)
      from balance_tree [OF t5 c5] obtain h' where
        h': "balance s5 (Some r) = Some (s5\<lparr>cells := h'\<rparr>, top (bal_sh (Fork l' r rr)))"
          "tree_at h' (top (bal_sh (Fork l' r rr))) (bal_sh (Fork l' r rr))"
          "cached h' (bal_sh (Fork l' r rr))"
          "\<forall>b. b \<notin> addrs (Fork l' r rr) \<longrightarrow> h' b = cells s5 b"
          "\<forall>b. map_option data (h' b) = map_option data (cells s5 b)"
        unfolding hook_post_def by auto
      have fr: "\<forall>b. b \<notin> addrs (Fork l r rr) \<and> b \<noteq> a \<longrightarrow> h' b = cells s b"
      proof (intro allI impI)
        fix b assume b: "b \<notin> addrs (Fork l r rr) \<and> b \<noteq> a"
        with sub have "b \<notin> addrs (Fork l' r rr)" by auto
        with h'(4) have "h' b = cells s5 b" by simp
        also have "\<dots> = cells sb b" using b by (simp add: s5_def s3_def)
        also have "\<dots> = cells sa b" using b sb(4) by simp
        also have "\<dots> = cells s b" using b by (simp add: sa_def)
        finally show "h' b = cells s b" .
      qed
      have da: "\<forall>b. map_option data (h' b) = map_option data (cells s b)"
      proof
        fix b
        have "map_option data (h' b) = map_option data (cells s5 b)" using h'(5) by simp
        also have "\<dots> = map_option data (cells sb b)"
          using sbr by (simp add: s5_def s3_def)
        also have "\<dots> = map_option data (cells sa b)" using sb(5) by simp
        also have "\<dots> = map_option data (cells s b)"
          using na by (simp add: sa_def na'_def)
        finally show "map_option data (h' b) = map_option data (cells s b)" .
      qed
      have nx: "next_addr (s5\<lparr>cells := h'\<rparr>) = next_addr s"
        using sb(6) by (simp add: s5_def s3_def sa_def)
      show ?thesis
        unfolding ins_post_def c_def [symmetric] sh rn(1) run h'(1)
        using h'(2,3) fr da nx
        by (intro exI [of _ "s5\<lparr>cells := h'\<rparr>"]) simp
    next
      case nl: False
      with False have lt: "c r < 0" by simp
      let ?s2 = "s\<lparr>cells := (cells s)(a := Some (na\<lparr>parent := Some r\<rparr>))\<rparr>"
      define na' where "na' = na\<lparr>parent := (if right rn \<noteq> None then right rn else Some r)\<rparr>"
      define sa where "sa = s\<lparr>cells := (cells s)(a := Some na')\<rparr>"
      have 4: "set_parent s (Some a) (Some r) = Some ?s2"
        by (rule set_parent_Some [OF na])
      have 5: "cells ?s2 r = Some rn" using ar rn by simp
      have 6: "(if right rn \<noteq> None then set_parent ?s2 (Some a) (right rn) else Some ?s2) = Some sa"
        by (simp add: set_parent_def store_def sa_def na'_def)
      have 7: "cells sa r = Some rn" using ar rn by (simp add: sa_def)
      have eq: "\<forall>b\<in>addrs rr. cells sa b = cells s b" using ar by (auto simp: sa_def)
      have ta: "tree_at (cells sa) (right rn) rr"
        unfolding tree_at_cong [OF eq] by (rule rn(4))
      have ca: "cached (cells sa) rr"
        unfolding cached_cong [OF eq] by (rule cr)
      have naa: "cells sa a = Some na'" by (simp add: sa_def)
      have nf: "left na' = None" "right na' = None" "height na' = 1" "data na' = data na"
        using Fork.prems(4,5,6) by (simp_all add: na'_def)
      have "\<forall>b. map_option data (cells sa b) = map_option data (cells s b)"
        using na by (simp add: sa_def na'_def)
      then have ceq: "cmp_at cmp (cells sa) (data na') = c"
        unfolding c_def nf(4) by (rule cmp_at_data_cong)
      define l' where "l' = ins_sh c a rr"
      have "ins_post sa (insert_at cmp balance sa (right rn) (Some a)) rr a l'"
        using Fork.IH(2) [OF ta ca naa nf(1,2,3) ar(3)] by (simp add: ceq l'_def)
      then obtain sb where
        sb: "insert_at cmp balance sa (right rn) (Some a) = Some (sb, top l')"
          "tree_at (cells sb) (top l') l'" "cached (cells sb) l'"
          "\<forall>b. b \<notin> addrs rr \<and> b \<noteq> a \<longrightarrow> cells sb b = cells sa b"
          "\<forall>b. map_option data (cells sb b) = map_option data (cells sa b)"
          "next_addr sb = next_addr sa"
        unfolding ins_post_def by auto
      have sub: "addrs l' \<subseteq> insert a (addrs rr)"
        unfolding l'_def by (rule addrs_ins_sh)
      have rl': "r \<notin> addrs l'" using sub d ar by auto
      have sbr: "cells sb r = Some rn" using sb(4) d ar 7 by auto
      define s3 where "s3 = sb\<lparr>cells := (cells sb)(r := Some (rn\<lparr>right := top l'\<rparr>))\<rparr>"
      have 9: "set_right sb (Some r) (top l') = Some s3"
        unfolding s3_def by (rule set_right_Some [OF sbr])
      have eqo: "\<forall>b\<in>addrs l. cells s3 b = cells s b"
        using d ar sb(4) by (auto simp: s3_def sa_def)
      have to3: "tree_at (cells s3) (left rn) l"
        unfolding tree_at_cong [OF eqo] by (rule rn(3))
      have co3: "cached (cells s3) l"
        unfolding cached_cong [OF eqo] by (rule cl)
      have tl3: "tree_at (cells s3) (top l') l'"
        using sb(2) rl' by (simp add: s3_def tree_at_upd)
      have cl3: "cached (cells s3) l'"
        using sb(3) rl' by (simp add: s3_def cached_upd)
      define s5 where "s5 = s3\<lparr>cells := (cells s3)(r :=
        Some (rn\<lparr>right := top l'\<rparr>\<lparr>height := max (ht l) (ht l') + 1\<rparr>))\<rparr>"
      have s3r: "cells s3 r = Some (rn\<lparr>right := top l'\<rparr>)" by (simp add: s3_def)
      have 10: "refresh_height s3 (Some r) = Some s5"
        unfolding s5_def using tl3 cl3 to3 co3
        by (intro refresh_height_Some [OF s3r]) simp_all
      have run: "insert_at cmp balance s (Some r) (Some a) = balance s5 (Some r)"
        using lt by (intro insert_at_right_step [OF rn(2) na _ 4 5 6 7 sb(1) 9 10]) (simp add: cr_eq)
      have dj: "addrs l' \<inter> addrs l = {}" using sub d ar by auto
      have t5: "tree_at (cells s5) (Some r) (Fork l r l')"
        using tl3 to3 rl' d dj by (auto simp: s5_def tree_at_upd)
      have c5: "cached (cells s5) (Fork l r l')"
        using cl3 co3 rl' d by (simp add: s5_def cached_upd)
      have sh: "ins_sh c a (Fork l r rr) = bal_sh (Fork l r l')"
        using lt by (simp add: l'_def)
      from balance_tree [OF t5 c5] obtain h' where
        h': "balance s5 (Some r) = Some (s5\<lparr>cells := h'\<rparr>, top (bal_sh (Fork l r l')))"
          "tree_at h' (top (bal_sh (Fork l r l'))) (bal_sh (Fork l r l'))"
          "cached h' (bal_sh (Fork l r l'))"
          "\<forall>b. b \<notin> addrs (Fork l r l') \<longrightarrow> h' b = cells s5 b"
          "\<forall>b. map_option data (h' b) = map_option data (cells s5 b)"
        unfolding hook_post_def by auto
      have fr: "\<forall>b. b \<notin> addrs (Fork l r rr) \<and> b \<noteq> a \<longrightarrow> h' b = cells s b"
      proof (intro allI impI)
        fix b assume b: "b \<notin> addrs (Fork l r rr) \<and> b \<noteq> a"
        with sub have "b \<notin> addrs (Fork l r l')" by auto
        with h'(4) have "h' b = cells s5 b" by simp
        also have "\<dots> = cells sb b" using b by (simp add: s5_def s3_def)
        also have "\<dots> = cells sa b" using b sb(4) by simp
        also have "\<dots> = cells s b" using b by (simp add: sa_def)
        finally show "h' b = cells s b" .
      qed
      have da: "\<forall>b. map_option data (h' b) = map_option data (cells s b)"
      proof
        fix b
        have "map_option data (h' b) = map_option data (cells s5 b)" using h'(5) by simp
        also have "\<dots> = map_option data (cells sb b)"
          using sbr by (simp add: s5_def s3_def)
        also have "\<dots> = map_option data (cells sa b)" using sb(5) by simp
        also have "\<dots> = map_option data (cells s b)"
          using na by (simp add: sa_def na'_def)
        finally show "map_option data (h' b) = map_option data (cells s b)" .
      qed
      have nx: "next_addr (s5\<lparr>cells := h'\<rparr>) = next_addr s"
        using sb(6) by (simp add: s5_def s3_def sa_def)
      show ?thesis
        unfolding ins_post_def c_def [symmetric] sh rn(1) run h'(1)
        using h'(2,3) fr da nx
        by (intro exI [of _ "s5\<lparr>cells := h'\<rparr>"]) simp
    qed
  qed
qed

section \<open>Insertion keeps an AVL tree balanced\<close>

lemma bal_sh_left:
  assumes "avl l'" "avl rr" "ht l' \<le> ht rr + 2" "ht rr \<le> ht l' + 1"
    and "ht l' = ht rr + 2 \<longrightarrow> bf l' \<noteq> 0"
  shows "avl (bal_sh (Fork l' r rr)) \<and>
     (if ht l' = ht rr + 2 then ht (bal_sh (Fork l' r rr)) = ht rr + 2
      else bal_sh (Fork l' r rr) = Fork l' r rr)"
proof (cases "ht l' = ht rr + 2")
  case False
  with assms show ?thesis by auto
next
  case True
  then obtain A p B where l': "l' = Fork A p B" by (cases l') auto
  show ?thesis
  proof (cases "bf l' > 0")
    case pos: True
    with True assms l' show ?thesis by (auto simp: max_def split: if_splits)
  next
    case neg: False
    with True assms l' have "ht B \<ge> 1" by auto
    then obtain B1 q B2 where B: "B = Fork B1 q B2" by (cases B) auto
    with neg True assms l' show ?thesis by (auto simp: max_def split: if_splits)
  qed
qed

lemma bal_sh_right:
  assumes "avl l" "avl rr'" "ht rr' \<le> ht l + 2" "ht l \<le> ht rr' + 1"
    and "ht rr' = ht l + 2 \<longrightarrow> bf rr' \<noteq> 0"
  shows "avl (bal_sh (Fork l r rr')) \<and>
     (if ht rr' = ht l + 2 then ht (bal_sh (Fork l r rr')) = ht l + 2
      else bal_sh (Fork l r rr') = Fork l r rr')"
proof (cases "ht rr' = ht l + 2")
  case False
  with assms show ?thesis by auto
next
  case True
  then obtain A p B where l': "rr' = Fork A p B" by (cases rr') auto
  show ?thesis
  proof (cases "bf rr' > 0")
    case neg: False
    with True assms l' show ?thesis by (auto simp: max_def split: if_splits)
  next
    case pos: True
    with True assms l' have "ht A \<ge> 1" by auto
    then obtain B1 q B2 where B: "A = Fork B1 q B2" by (cases A) auto
    with pos True assms l' show ?thesis by (auto simp: max_def split: if_splits)
  qed
qed

lemma bal_sh_avl: "avl t \<Longrightarrow> bal_sh t = t"
  by (cases t) auto

lemma avl_ins_sh:
  "avl t \<Longrightarrow> avl (ins_sh c a t) \<and>
     (ht (ins_sh c a t) = ht t \<or>
      ht (ins_sh c a t) = ht t + 1 \<and> (t = Tip \<or> bf (ins_sh c a t) \<noteq> 0))"
proof (induction t)
  case Tip
  then show ?case by simp
next
  case (Fork l r rr)
  then have al: "avl l" and ar: "avl rr" and b: "ht l \<le> ht rr + 1" "ht rr \<le> ht l + 1"
    by auto
  consider (L) "c r > 0" | (R) "c r < 0" | (E) "c r = 0" by linarith
  then show ?case
  proof cases
    case E
    then show ?thesis using Fork.prems bal_sh_avl [OF Fork.prems] by simp
  next
    case L
    define l' where "l' = ins_sh c a l"
    from Fork.IH(1) [OF al] have ih: "avl l'"
      "ht l' = ht l \<or> ht l' = ht l + 1 \<and> (l = Tip \<or> bf l' \<noteq> 0)"
      by (simp_all add: l'_def)
    have eq: "ins_sh c a (Fork l r rr) = bal_sh (Fork l' r rr)"
      using L by (simp add: l'_def)
    have pre: "ht l' \<le> ht rr + 2" "ht rr \<le> ht l' + 1" "ht l' = ht rr + 2 \<longrightarrow> bf l' \<noteq> 0"
      using ih b by auto
    from bal_sh_left [OF ih(1) ar pre, of r] ih(2) b show ?thesis
      unfolding eq by (auto split: if_splits)
  next
    case R
    define l' where "l' = ins_sh c a rr"
    from Fork.IH(2) [OF ar] have ih: "avl l'"
      "ht l' = ht rr \<or> ht l' = ht rr + 1 \<and> (rr = Tip \<or> bf l' \<noteq> 0)"
      by (simp_all add: l'_def)
    have eq: "ins_sh c a (Fork l r rr) = bal_sh (Fork l r l')"
      using R by (simp add: l'_def)
    have pre: "ht l' \<le> ht l + 2" "ht l \<le> ht l' + 1" "ht l' = ht l + 2 \<longrightarrow> bf l' \<noteq> 0"
      using ih b by auto
    from bal_sh_right [OF al ih(1) pre, of r] ih(2) b show ?thesis
      unfolding eq by (auto split: if_splits)
  qed
qed

lemma balanced_nodes:
  "tree_at (cells s) p t \<Longrightarrow> cached (cells s) t \<Longrightarrow> avl t \<Longrightarrow>
   \<forall>a\<in>addrs t. \<exists>d. difference s (Some a) = Some d \<and> - 1 \<le> d \<and> d \<le> 1"
proof (induction t arbitrary: p)
  case Tip
  then show ?case by simp
next
  case (Fork l a r)
  from Fork.prems(1) obtain n where n: "p = Some a" "cells s a = Some n"
    "tree_at (cells s) (left n) l" "tree_at (cells s) (right n) r"
    by (auto split: option.splits)
  have "difference s (Some a) = Some (bf (Fork l a r))"
    using difference_cached [OF Fork.prems(1,2)] n by simp
  moreover have "- 1 \<le> bf (Fork l a r) \<and> bf (Fork l a r) \<le> 1"
    using Fork.prems(3) by auto
  moreover have "\<forall>a\<in>addrs l. \<exists>d. difference s (Some a) = Some d \<and> - 1 \<le> d \<and> d \<le> 1"
    using Fork.IH(1) [OF n(3)] Fork.prems(2,3) by simp
  moreover have "\<forall>a\<in>addrs r. \<exists>d. difference s (Some a) = Some d \<and> - 1 \<le> d \<and> d \<le> 1"
    using Fork.IH(2) [OF n(4)] Fork.prems(2,3) by simp
  ultimately show ?case by auto
qed

lemma avl_inv_empty: "avl_inv empty_tree Tip"
  by (simp add: avl_inv_def empty_tree_def)

lemma insert_data_avl_inv:
  assumes "avl_inv s t"
  shows "\<exists>s' t'. insert_data cmp balance s v = Some s' \<and> avl_inv s' t'"
proof -
  define a where "a = next_addr s"
  define na :: "'a node" where
    "na = \<lparr>data = v, parent = None, left = None, right = None, height = 1\<rparr>"
  define s1 where "s1 = s\<lparr>cells := (cells s)(a := Some na), next_addr := a + 1,
    tree_size := tree_size s + 1\<rparr>"
  from assms have i: "tree_at (cells s) (tree_root s) t" "cached (cells s) t" "avl t"
    "\<forall>b\<in>addrs t. b < next_addr s"
    by (simp_all add: avl_inv_def)
  have an: "a \<notin> addrs t" using i(4) by (auto simp: a_def)
  have eq: "\<forall>b\<in>addrs t. cells s1 b = cells s b"
    using an by (auto simp: s1_def)
  have t1: "tree_at (cells s1) (tree_root s) t"
    unfolding tree_at_cong [OF eq] by (rule i(1))
  have c1: "cached (cells s1) t"
    unfolding cached_cong [OF eq] by (rule i(2))
  have a1: "cells s1 a = Some na" by (simp add: s1_def)
  define t' where "t' = ins_sh (cmp_at cmp (cells s1) (data na)) a t"
  have "ins_post s1 (insert_at cmp balance s1 (tree_root s) (Some a)) t a t'"
    unfolding t'_def by (rule insert_at_tree [OF t1 c1 a1 _ _ _ an]) (simp_all add: na_def)
  then obtain s2 where s2: "insert_at cmp balance s1 (tree_root s) (Some a) = Some (s2, top t')"
    "tree_at (cells s2) (top t') t'" "cached (cells s2) t'" "next_addr s2 = next_addr s1"
    unfolding ins_post_def by auto
  have run: "insert_data cmp balance s v = Some (s2\<lparr>tree_root := top t'\<rparr>)"
    using s2(1) by (simp add: insert_data_def new_node_def insert_node_def s1_def a_def na_def)
  have "avl t'" unfolding t'_def using avl_ins_sh [OF i(3)] by blast
  moreover have "\<forall>b\<in>addrs t'. b < next_addr s2"
  proof
    fix b assume "b \<in> addrs t'"
    moreover have "addrs t' \<subseteq> insert a (addrs t)"
      unfolding t'_def by (rule addrs_ins_sh)
    ultimately have "b = a \<or> b \<in> addrs t" by auto
    moreover have "next_addr s2 = a + 1" using s2(4) by (simp add: s1_def)
    ultimately show "b < next_addr s2" using i(4) by (auto simp: a_def less_Suc_eq)
  qed
  ultimately have "avl_inv (s2\<lparr>tree_root := top t'\<rparr>) t'"
    using s2(2,3) by (simp add: avl_inv_def)
  with run show ?thesis by blast
qed

lemma run_inserts_avl_inv:
  "avl_inv s t \<Longrightarrow> \<exists>s' t'. run cmp balance s (map Insert vs) = Some s' \<and> avl_inv s' t'"
proof (induction vs arbitrary: s t)
  case Nil
  then show ?case by auto
next
  case (Cons v vs)
  from insert_data_avl_inv [OF Cons.prems] obtain s1 t1 where
    s1: "insert_data cmp balance s v = Some s1" "avl_inv s1 t1" by blast
  from Cons.IH [OF s1(2)] s1(1) show ?case by simp
qed

text \<open>
  C2. For every list of values and every comparator, inserting the values one after the
  other into an empty AVL tree returns, and afterwards the store holds a tree at the root in
  which every node's balance factor, the cached height of the left child minus that of the
  right child with 0 for an absent child, lies between -1 and 1. The cached heights are the
  true ones. The list is arbitrary, so this holds after every insert of a workload.
\<close>

theorem avl_inserts_balanced:
  "\<exists>s t. run cmp balance empty_tree (map Insert vs) = Some s \<and>
     tree_at (cells s) (root s) t \<and> cached (cells s) t \<and> avl t \<and>
     (\<forall>a\<in>addrs t. \<exists>d. difference s (Some a) = Some d \<and> - 1 \<le> d \<and> d \<le> 1)"
proof -
  from run_inserts_avl_inv [OF avl_inv_empty] obtain s t where
    r: "run cmp balance empty_tree (map Insert vs) = Some s" "avl_inv s t" by blast
  from r(2) have i: "tree_at (cells s) (tree_root s) t" "cached (cells s) t" "avl t"
    by (simp_all add: avl_inv_def)
  from balanced_nodes [OF i] r(1) i show ?thesis by (auto simp: root_def)
qed

theorem avl_inserts_balanced_witness:
  "\<exists>s t. run compare_default balance empty_tree (map Insert [10, 20, 30, 20 :: int]) = Some s \<and>
     tree_at (cells s) (root s) t \<and> cached (cells s) t \<and> avl t \<and>
     (\<forall>a\<in>addrs t. \<exists>d. difference s (Some a) = Some d \<and> - 1 \<le> d \<and> d \<le> 1)"
  by (rule avl_inserts_balanced)

section \<open>What remove does to the links\<close>

lemma back_link_not_tree:
  assumes "cells s a = Some na" "right na = Some b" "cells s b = Some nb" "left nb = Some a"
  shows "\<not> tree_at (cells s) (Some a) t"
proof
  assume t: "tree_at (cells s) (Some a) t"
  then obtain l r where t1: "t = Fork l a r" by (cases t) auto
  with t assms have r: "tree_at (cells s) (Some b) r" "a \<notin> addrs r" by auto
  then obtain l' r' where r1: "r = Fork l' b r'" by (cases r) auto
  with r assms have l': "tree_at (cells s) (Some a) l'" "a \<notin> addrs l'" by auto
  then show False by (cases l') auto
qed

lemma back_link_no_walk:
  assumes "cells s a = Some na" "right na = Some b" "cells s b = Some nb" "left nb = Some a"
  shows "in_order s (Some a) = None"
proof (rule ccontr)
  assume "in_order s (Some a) \<noteq> None"
  then obtain xs where xs: "in_order s (Some a) = Some xs" by auto
  from xs assms(1,2) obtain l ys where
    ys: "in_order s (Some b) = Some ys" and x: "xs = l @ [data na] @ ys"
    by (subst (asm) in_order.simps) (auto simp: bind_eq_Some_conv split: if_splits)
  from ys assms(3,4) xs obtain r where "ys = xs @ [data nb] @ r"
    by (subst (asm) in_order.simps) (auto simp: bind_eq_Some_conv split: if_splits)
  with x have "length xs = length l + 1 + (length xs + 1 + length r)" by simp
  then show False by simp
qed

lemma two_children_removed_facts:
  "run compare_default balance_base (empty_tree :: int state)
     [Insert 2, Insert 1, Insert 4, Insert 3, Remove 2] \<noteq> None"
  "tree_root two_children_removed = Some 4"
  "cells two_children_removed 4 =
     Some \<lparr>data = 3, parent = None, left = Some 2, right = Some 3, height = 3\<rparr>"
  "cells two_children_removed 3 =
     Some \<lparr>data = 4, parent = Some 1, left = Some 4, right = None, height = 2\<rparr>"
  by code_simp+

text \<open>
  C1. The claim: after every sequence of inserts and removes from the empty tree the
  ordering invariant holds. On the plain binary tree, insert 2, 1, 4, 3 and remove 2. The
  removed root has two children and the right one is the taller, so the node of 3 (address
  4), the minimum of the right subtree, is promoted. \<open>remove\<close> overwrites
  \<open>promote->parent\<close> before \<open>parent_unlink(promote)\<close> looks for the old parent, so the
  node of 4 (address 3) keeps its left link to the promoted node: the new root has the node
  of 4 as its right child and is itself that node's left child. What hangs below the root is
  not a tree any more: the node of 4 lies in its own left subtree, and the walk in order
  never returns.
\<close>

theorem remove_two_children_keeps_old_link:
  "run compare_default balance_base (empty_tree :: int state)
     [Insert 2, Insert 1, Insert 4, Insert 3, Remove 2] \<noteq> None \<and>
   tree_root two_children_removed = Some 4 \<and>
   cells two_children_removed 4 =
     Some \<lparr>data = 3, parent = None, left = Some 2, right = Some 3, height = 3\<rparr> \<and>
   cells two_children_removed 3 =
     Some \<lparr>data = 4, parent = Some 1, left = Some 4, right = None, height = 2\<rparr> \<and>
   (\<nexists>t. tree_at (cells two_children_removed) (tree_root two_children_removed) t) \<and>
   in_order two_children_removed (tree_root two_children_removed) = None"
proof -
  have "\<not> tree_at (cells two_children_removed) (Some 4) t" for t
    by (rule back_link_not_tree [OF two_children_removed_facts(3) _ two_children_removed_facts(4)])
       simp_all
  moreover have "in_order two_children_removed (Some 4) = None"
    by (rule back_link_no_walk [OF two_children_removed_facts(3) _ two_children_removed_facts(4)])
       simp_all
  ultimately show ?thesis
    using two_children_removed_facts by simp
qed


lemma seven_less_four_facts:
  "run compare_default balance (empty_tree :: int state)
     [Insert 1, Insert 2, Insert 3, Insert 4, Insert 5, Insert 6, Insert 7, Remove 4] \<noteq> None"
  "tree_root seven_less_four = Some 5"
  "tree_size seven_less_four = 6"
  "cells seven_less_four 5 =
     Some \<lparr>data = 5, parent = Some 3, left = Some 2, right = Some 6, height = 3\<rparr>"
  "cells seven_less_four 6 =
     Some \<lparr>data = 6, parent = Some 5, left = Some 5, right = Some 7, height = 2\<rparr>"
  by code_simp+

text \<open>
  C3. The scenario: insert 1 to 7 in increasing order into an AVL tree, then remove 4. The
  promoted node is the node of 5 (address 5) and the size goes from 7 to 6, as claimed. But
  the node of 6 (address 6) still has the promoted node as its left child, while the
  promoted node has taken the node of 6 as its right child: the links form a cycle, no tree
  hangs below the root, and the walk in order never returns, so it does not give
  1, 2, 3, 5, 6, 7.
\<close>

theorem avl_remove_4_of_1_to_7:
  "run compare_default balance (empty_tree :: int state)
     [Insert 1, Insert 2, Insert 3, Insert 4, Insert 5, Insert 6, Insert 7, Remove 4] \<noteq> None \<and>
   tree_root seven_less_four = Some 5 \<and>
   tree_size seven_less_four = 6 \<and>
   cells seven_less_four 5 =
     Some \<lparr>data = 5, parent = Some 3, left = Some 2, right = Some 6, height = 3\<rparr> \<and>
   cells seven_less_four 6 =
     Some \<lparr>data = 6, parent = Some 5, left = Some 5, right = Some 7, height = 2\<rparr> \<and>
   (\<nexists>t. tree_at (cells seven_less_four) (tree_root seven_less_four) t) \<and>
   in_order seven_less_four (tree_root seven_less_four) = None"
proof -
  have "\<not> tree_at (cells seven_less_four) (Some 5) t" for t
    by (rule back_link_not_tree [OF seven_less_four_facts(4) _ seven_less_four_facts(5)])
       simp_all
  moreover have "in_order seven_less_four (Some 5) = None"
    by (rule back_link_no_walk [OF seven_less_four_facts(4) _ seven_less_four_facts(5)])
       simp_all
  ultimately show ?thesis
    using seven_less_four_facts by simp
qed

lemma stale_height_facts:
  "run compare_default balance (empty_tree :: int state)
     [Insert 10, Insert 20, Insert 30, Insert 5, Remove 5] \<noteq> None"
  "tree_at (cells stale_height) (tree_root stale_height) (Fork (Fork Tip 1 Tip) 2 (Fork Tip 3 Tip))"
  "cells stale_height 2 =
     Some \<lparr>data = 20, parent = Some 1, left = Some 1, right = Some 3, height = 3\<rparr>"
  "height_of stale_height (Some 1) = Some 1"
  "height_of stale_height (Some 3) = Some 1"
  "\<not> cached (cells stale_height) (Fork (Fork Tip 1 Tip) 2 (Fork Tip 3 Tip))"
  by code_simp+

text \<open>
  C4. The claim: after every completed public operation every cached height is one more
  than the larger of the children's heights. In an AVL tree insert 10, 20, 30, 5 and remove
  5. The rotation at the third insert left the node of 10 (address 1) with no parent, so
  the height refresh that starts at it after the removal stops there: the root, the node of
  20 (address 2), keeps height 3 over two leaves of height 1.
\<close>

theorem avl_remove_leaves_stale_height:
  "run compare_default balance (empty_tree :: int state)
     [Insert 10, Insert 20, Insert 30, Insert 5, Remove 5] \<noteq> None \<and>
   tree_at (cells stale_height) (tree_root stale_height) (Fork (Fork Tip 1 Tip) 2 (Fork Tip 3 Tip)) \<and>
   cells stale_height 2 =
     Some \<lparr>data = 20, parent = Some 1, left = Some 1, right = Some 3, height = 3\<rparr> \<and>
   height_of stale_height (Some 1) = Some 1 \<and>
   height_of stale_height (Some 3) = Some 1 \<and>
   \<not> cached (cells stale_height) (Fork (Fork Tip 1 Tip) 2 (Fork Tip 3 Tip))"
  using stale_height_facts by blast

lemma rotated_once_facts:
  "run compare_default balance (empty_tree :: int state)
     [Insert 10, Insert 20, Insert 30] \<noteq> None"
  "tree_at (cells rotated_once) (tree_root rotated_once) (Fork (Fork Tip 1 Tip) 2 (Fork Tip 3 Tip))"
  "cells rotated_once 2 =
     Some \<lparr>data = 20, parent = Some 1, left = Some 1, right = Some 3, height = 2\<rparr>"
  "cells rotated_once 1 =
     Some \<lparr>data = 10, parent = None, left = None, right = None, height = 1\<rparr>"
  "\<not> parents_ok (cells rotated_once) None (Fork (Fork Tip 1 Tip) 2 (Fork Tip 3 Tip))"
  by code_simp+

text \<open>
  C5. The claim: after insertions into an AVL tree every parent link agrees with the
  left and right links, the root's parent being absent. Insert 10, 20, 30: the single RR
  rotation makes the node of 20 (address 2) the root. No rotation writes a parent link and
  the unwinding of insert writes none either, so the root still names the node of 10
  (address 1) as its parent, and the node of 10, now the root's left child, has none.
\<close>

theorem avl_rotation_leaves_stale_parent:
  "run compare_default balance (empty_tree :: int state)
     [Insert 10, Insert 20, Insert 30] \<noteq> None \<and>
   tree_at (cells rotated_once) (tree_root rotated_once) (Fork (Fork Tip 1 Tip) 2 (Fork Tip 3 Tip)) \<and>
   cells rotated_once 2 =
     Some \<lparr>data = 20, parent = Some 1, left = Some 1, right = Some 3, height = 2\<rparr> \<and>
   cells rotated_once 1 =
     Some \<lparr>data = 10, parent = None, left = None, right = None, height = 1\<rparr> \<and>
   \<not> parents_ok (cells rotated_once) None (Fork (Fork Tip 1 Tip) 2 (Fork Tip 3 Tip))"
  using rotated_once_facts by blast

lemma one_child_removed_facts:
  "run compare_default balance_base (empty_tree :: int state)
     [Insert 1, Insert 3, Insert 2, Remove 1] \<noteq> None"
  "tree_at (cells one_child_removed) (tree_root one_child_removed) (Fork Tip 2 Tip)"
  "cells one_child_removed 2 =
     Some \<lparr>data = 3, parent = None, left = None, right = None, height = 1\<rparr>"
  "size_t one_child_removed = 2"
  "find_at compare_default one_child_removed (tree_root one_child_removed) 2 = Some None"
  "in_order one_child_removed (tree_root one_child_removed) = Some [3]"
  by code_simp+

text \<open>
  C6. The claim: removing a node with exactly one child keeps every other value, also
  when the promoted child has a child of its own on the side the removed node has none. On
  the plain binary tree, insert 1, 3, 2 and remove 1. The node of 3 (address 2) is promoted
  and its left link, which held the node of 2, is overwritten with the removed node's empty
  left link: the tree is a single leaf, the size says 2, and 2 is not found any more.
\<close>

theorem remove_one_child_drops_grandchild:
  "run compare_default balance_base (empty_tree :: int state)
     [Insert 1, Insert 3, Insert 2, Remove 1] \<noteq> None \<and>
   tree_at (cells one_child_removed) (tree_root one_child_removed) (Fork Tip 2 Tip) \<and>
   cells one_child_removed 2 =
     Some \<lparr>data = 3, parent = None, left = None, right = None, height = 1\<rparr> \<and>
   size_t one_child_removed = 2 \<and>
   find_at compare_default one_child_removed (tree_root one_child_removed) 2 = Some None \<and>
   in_order one_child_removed (tree_root one_child_removed) = Some [3]"
  using one_child_removed_facts by blast

end
